theory Spec2Isabelle
  imports Complex_Main
begin

section \<open>Common conventions\<close>

text \<open>
  JavaScript numbers are read as mathematical reals wherever a statement only compares them or
  follows the structure of a computation.  Where the value of an arithmetic result matters, the
  functions are given a second time in double precision (names ending in \<open>64\<close>), each
  operation followed by the rounding to the nearest double.  Exceptions are values of the type
  \<open>error\<close>; a function that can throw returns \<open>error + 'a\<close>.
\<close>

datatype error =
    DBError
  | EmbeddingUnavailable string
  | DimensionMismatch
  | TypeError

datatype dup_status = UNIQUE | NEAR_DUPLICATE | DUPLICATE

text \<open>\<open>x || d\<close> on a possibly missing number: \<open>undefined\<close>, \<open>null\<close> and \<open>0\<close> are falsy.\<close>

definition js_or :: "real option \<Rightarrow> real \<Rightarrow> real" where
  "js_or x d = (case x of None \<Rightarrow> d | Some v \<Rightarrow> if v = 0 then d else v)"


section \<open>Adaptive threshold store (src/nlp/adaptiveThreshold.js)\<close>

text \<open>
  The six threshold kinds are the values the CHECK constraint of table
  \<open>adaptive_thresholds\<close> admits for column \<open>threshold_type\<close>.
\<close>

datatype kind =
    duplicate | near_duplicate | cosine_weight | jaccard_weight | ngram_weight | metadata_weight

text \<open>
  One row of \<open>adaptive_thresholds\<close>.  \<open>current_value\<close> is NOT NULL; \<open>min_value\<close>,
  \<open>max_value\<close> and \<open>adjustment_count\<close> have defaults but may hold NULL.  The timestamp
  columns are not modelled.
\<close>

record threshold_row =
  threshold_type :: kind
  current_value :: real
  min_value :: "real option"
  max_value :: "real option"
  adjustment_count :: "int option"

text \<open>\<open>env.DB\<close>: either every statement throws, or the table holds the listed rows.\<close>

datatype db = Unavailable | Store "threshold_row list"

type_synonym thresholds = "kind \<Rightarrow> real"

text \<open>The object literal of the \<open>try\<close> branch of \<open>getAdaptiveThresholds\<close>.\<close>

fun try_defaults :: thresholds where
  "try_defaults duplicate = 0.60"
| "try_defaults near_duplicate = 0.60"
| "try_defaults cosine_weight = 0.55"
| "try_defaults jaccard_weight = 0.25"
| "try_defaults ngram_weight = 0.15"
| "try_defaults metadata_weight = 0.05"

text \<open>The object literal of the \<open>catch\<close> branch of \<open>getAdaptiveThresholds\<close>.\<close>

fun catch_defaults :: thresholds where
  "catch_defaults duplicate = 0.50"
| "catch_defaults near_duplicate = 0.50"
| "catch_defaults cosine_weight = 0.55"
| "catch_defaults jaccard_weight = 0.25"
| "catch_defaults ngram_weight = 0.15"
| "catch_defaults metadata_weight = 0.05"

text \<open>
  \<open>getAdaptiveThresholds\<close>: the loop \<open>for (const row of results)\<close> assigns
  \<open>thresholds[row.threshold_type] = row.current_value\<close> in the order of the result set.
\<close>

definition getAdaptiveThresholds :: "db \<Rightarrow> thresholds" where
  "getAdaptiveThresholds env = (case env of
      Unavailable \<Rightarrow> catch_defaults
    | Store results \<Rightarrow>
        foldl (\<lambda>th row. th(threshold_type row := current_value row)) try_defaults results)"

record feedback =
  originalStatus :: string
  correctedStatus :: string
  originalScore :: "real option"

definition LEARNING_RATE :: real where
  "LEARNING_RATE = 0.05"

text \<open>The \<open>if\<close>/\<open>else if\<close> chain choosing \<open>thresholdToAdjust\<close> and \<open>adjustment\<close>.\<close>

definition chooseAdjustment :: "feedback \<Rightarrow> kind option \<times> real" where
  "chooseAdjustment fb =
    (if originalStatus fb = ''UNIQUE'' \<and> correctedStatus fb = ''DUPLICATE''
       then (Some duplicate, - LEARNING_RATE)
     else if originalStatus fb = ''DUPLICATE'' \<and> correctedStatus fb = ''UNIQUE''
       then (Some duplicate, LEARNING_RATE)
     else if originalStatus fb = ''UNIQUE'' \<and> correctedStatus fb = ''NEAR_DUPLICATE''
       then (Some near_duplicate, - LEARNING_RATE)
     else if originalStatus fb = ''NEAR_DUPLICATE'' \<and> correctedStatus fb = ''UNIQUE''
       then (Some near_duplicate, LEARNING_RATE)
     else if originalStatus fb = ''NEAR_DUPLICATE'' \<and> correctedStatus fb = ''DUPLICATE''
       then (Some near_duplicate, LEARNING_RATE)
     else if originalStatus fb = ''DUPLICATE'' \<and> correctedStatus fb = ''NEAR_DUPLICATE''
       then (Some duplicate, LEARNING_RATE)
     else (None, 0))"

text \<open>\<open>SELECT min_value, max_value ... WHERE threshold_type = ?\<close> followed by \<open>.first()\<close>.\<close>

definition selectBounds :: "threshold_row list \<Rightarrow> kind \<Rightarrow> threshold_row option" where
  "selectBounds rows k = find (\<lambda>r. threshold_type r = k) rows"

text \<open>\<open>bounds?.min_value || 0.3\<close> and \<open>bounds?.max_value || 0.95\<close>: a missing row, a NULL and a
  stored \<open>0\<close> all give the built-in bound.\<close>

definition minVal :: "threshold_row list \<Rightarrow> kind \<Rightarrow> real" where
  "minVal rows k =
     js_or (case selectBounds rows k of None \<Rightarrow> None | Some bounds \<Rightarrow> min_value bounds) 0.3"

definition maxVal :: "threshold_row list \<Rightarrow> kind \<Rightarrow> real" where
  "maxVal rows k =
     js_or (case selectBounds rows k of None \<Rightarrow> None | Some bounds \<Rightarrow> max_value bounds) 0.95"

text \<open>\<open>UPDATE adaptive_thresholds SET current_value = ?, adjustment_count = adjustment_count + 1
  WHERE threshold_type = ?\<close>.\<close>

definition updateRow :: "threshold_row list \<Rightarrow> kind \<Rightarrow> real \<Rightarrow> threshold_row list" where
  "updateRow rows k v =
     map (\<lambda>r. if threshold_type r = k
                then r\<lparr>current_value := v,
                       adjustment_count := map_option (\<lambda>c. c + 1) (adjustment_count r)\<rparr>
                else r) rows"

text \<open>
  \<open>updateThresholdsFromFeedback\<close> returns the adjusted threshold object; the second component
  is the table after the call.  An unknown transition touches nothing, and it then returns even
  when the read failed, because \<open>getAdaptiveThresholds\<close> catches its own error.  The sum
  \<open>currentValue + adjustment\<close> is read over the reals here;
  \<open>updateThresholdsFromFeedback64\<close> below follows the doubles.
\<close>

definition updateThresholdsFromFeedback :: "feedback \<Rightarrow> db \<Rightarrow> error + (thresholds \<times> db)" where
  "updateThresholdsFromFeedback fb env =
    (let currentThresholds = getAdaptiveThresholds env;
         (thresholdToAdjust, adjustment) = chooseAdjustment fb
     in case thresholdToAdjust of
          None \<Rightarrow> Inr (currentThresholds, env)
        | Some k \<Rightarrow>
            (case env of
               Unavailable \<Rightarrow> Inl DBError
             | Store rows \<Rightarrow>
                 (let currentValue = currentThresholds k;
                      newValue = max (minVal rows k) (min (maxVal rows k) (currentValue + adjustment))
                  in Inr (currentThresholds(k := newValue), Store (updateRow rows k newValue)))))"

text \<open>\<open>classifyWithAdaptiveThresholds\<close>.\<close>

definition classifyWithAdaptiveThresholds :: "real \<Rightarrow> thresholds \<Rightarrow> dup_status" where
  "classifyWithAdaptiveThresholds combinedScore th =
    (if combinedScore \<ge> th duplicate then DUPLICATE
     else if combinedScore \<ge> th near_duplicate then NEAR_DUPLICATE
     else UNIQUE)"

text \<open>The record of scores handed to \<open>calculateAdaptiveWeightedScore\<close>.\<close>

record scores =
  cosine :: real
  jaccard :: real
  ngram :: real
  metadata :: "real option"



text \<open>The rows inserted by the migration \<open>schema_migration_v2.sql\<close>.\<close>

definition seed_rows :: "threshold_row list" where
  "seed_rows =
    [\<lparr>threshold_type = duplicate, current_value = 0.85, min_value = Some 0.75,
       max_value = Some 0.95, adjustment_count = Some 0\<rparr>,
     \<lparr>threshold_type = near_duplicate, current_value = 0.65, min_value = Some 0.50,
       max_value = Some 0.80, adjustment_count = Some 0\<rparr>,
     \<lparr>threshold_type = cosine_weight, current_value = 0.50, min_value = Some 0.30,
       max_value = Some 0.70, adjustment_count = Some 0\<rparr>,
     \<lparr>threshold_type = jaccard_weight, current_value = 0.25, min_value = Some 0.10,
       max_value = Some 0.40, adjustment_count = Some 0\<rparr>,
     \<lparr>threshold_type = ngram_weight, current_value = 0.15, min_value = Some 0.05,
       max_value = Some 0.30, adjustment_count = Some 0\<rparr>,
     \<lparr>threshold_type = metadata_weight, current_value = 0.10, min_value = Some 0.00,
       max_value = Some 0.25, adjustment_count = Some 0\<rparr>]"

text \<open>A run of feedback events, each applied to the table its predecessor left; the run
  stops at the first error.\<close>

fun applyFeedbacks :: "feedback list \<Rightarrow> db \<Rightarrow> error + db" where
  "applyFeedbacks [] env = Inr env"
| "applyFeedbacks (fb # fbs) env =
     (case updateThresholdsFromFeedback fb env of
        Inl e \<Rightarrow> Inl e
      | Inr (th, env') \<Rightarrow> applyFeedbacks fbs env')"

definition fb_transition :: "string \<Rightarrow> string \<Rightarrow> feedback" where
  "fb_transition a b = \<lparr>originalStatus = a, correctedStatus = b, originalScore = None\<rparr>"

text \<open>The feedback event \<open>UNIQUE \<rightarrow> DUPLICATE\<close>.\<close>

definition unique_to_duplicate :: feedback where
  "unique_to_duplicate = fb_transition ''UNIQUE'' ''DUPLICATE''"

text \<open>The row of kind \<open>k\<close> exists and its value lies between the bounds the update uses.\<close>

definition within_bounds :: "threshold_row list \<Rightarrow> kind \<Rightarrow> bool" where
  "within_bounds rows k =
     (case selectBounds rows k of
        None \<Rightarrow> False
      | Some r \<Rightarrow> minVal rows k \<le> current_value r \<and> current_value r \<le> maxVal rows k)"

section \<open>Embeddings and cosine similarity (src/nlp/embedding.js)\<close>

text \<open>\<open>cosineSimilarity\<close>: throws when the dimensions differ; the loop accumulates the dot
  product and the two squared magnitudes; a zero magnitude gives 0.  The operators are read
  over the reals here; \<open>cosineSimilarity64\<close> below follows the doubles.\<close>

definition cosineSimilarity :: "real list \<Rightarrow> real list \<Rightarrow> error + real" where
  "cosineSimilarity vec1 vec2 =
    (if length vec1 \<noteq> length vec2 then Inl DimensionMismatch
     else
       let (dotProduct, mag1, mag2) =
             foldl (\<lambda>(dotProduct, mag1, mag2) (a, b).
                      (dotProduct + a * b, mag1 + a * a, mag2 + b * b))
                   (0, 0, 0) (zip vec1 vec2);
           mag1 = sqrt mag1;
           mag2 = sqrt mag2
       in if mag1 = 0 \<or> mag2 = 0 then Inr 0 else Inr (dotProduct / (mag1 * mag2)))"

section \<open>Batch grievances\<close>

text \<open>A within-batch match carries the string \<open>batch_<i>\<close> (\<open>Pending i\<close>), a historical match the
  numeric id of a stored grievance (\<open>Persisted id\<close>).\<close>

datatype match_id = Persisted int | Pending nat

text \<open>The fields of a batch grievance object that the modelled functions read or write.
  \<open>None\<close> stands for a property that is \<open>undefined\<close>.\<close>

record grievance =
  pageNumber :: int
  processedText :: string
  embedding :: "real list"
  category :: "string option"
  finalStatus :: dup_status
  globalScore :: "real option"
  localScore :: "real option"
  globalMatchId :: "match_id option"
  clusterId :: "int option"
  clusterSize :: "nat option"
  clusteredWith :: "nat option"
  clusterBasedMatch :: bool

section \<open>DBSCAN (src/nlp/dbscan.js)\<close>

text \<open>Collecting the results of calls that may throw: the first exception wins.\<close>

fun collect :: "(error + 'a) list \<Rightarrow> error + 'a list" where
  "collect [] = Inr []"
| "collect (x # xs) =
     (case x of Inl e \<Rightarrow> Inl e
      | Inr v \<Rightarrow> (case collect xs of Inl e \<Rightarrow> Inl e | Inr vs \<Rightarrow> Inr (v # vs)))"

text \<open>Row \<open>i\<close> of \<open>computeSimilarityMatrix\<close>, given the rows \<open>matrix\<close> already built: the diagonal
  is the literal 1.0, entries left of it are copied from the transposed position, the others are
  computed.\<close>

definition matrixRow :: "grievance list \<Rightarrow> real list list \<Rightarrow> nat \<Rightarrow> error + real list" where
  "matrixRow grievances matrix i =
     collect (map (\<lambda>j. if i = j then Inr 1.0
                        else if j < i then Inr (matrix ! j ! i)
                        else cosineSimilarity (embedding (grievances ! i)) (embedding (grievances ! j)))
                  [0..<length grievances])"

fun matrixRows :: "grievance list \<Rightarrow> real list list \<Rightarrow> nat list \<Rightarrow> error + real list list" where
  "matrixRows grievances matrix [] = Inr matrix"
| "matrixRows grievances matrix (i # is) =
     (case matrixRow grievances matrix i of
        Inl e \<Rightarrow> Inl e
      | Inr row \<Rightarrow> matrixRows grievances (matrix @ [row]) is)"

definition computeSimilarityMatrix :: "grievance list \<Rightarrow> error + real list list" where
  "computeSimilarityMatrix grievances = matrixRows grievances [] [0..<length grievances]"

definition regionQuery :: "real list list \<Rightarrow> nat \<Rightarrow> real \<Rightarrow> nat \<Rightarrow> nat list" where
  "regionQuery matrix p eps n = filter (\<lambda>q. 1 - matrix ! p ! q \<le> eps) [0..<n]"

text \<open>The \<open>while\<close> loop of \<open>expandCluster\<close>.  Labels: -1 unvisited, 0 noise, otherwise a cluster
  id; cluster ids are the positive counter of \<open>dbscanCluster\<close>.  Reading \<open>labels[q]\<close> beyond the
  array gives \<open>undefined\<close>, which differs from both 0 and -1.\<close>

lemma count_list_update:
  "q < length xs \<Longrightarrow>
   count_list (xs[q := v]) a + (if xs ! q = a then 1 else 0)
     = count_list xs a + (if v = a then 1 else 0)"
proof (induction xs arbitrary: q)
  case Nil
  then show ?case by simp
next
  case (Cons x xs)
  show ?case
  proof (cases q)
    case 0
    then show ?thesis by simp
  next
    case (Suc q')
    with Cons.prems have "q' < length xs" by simp
    from Cons.IH [OF this] Suc show ?thesis by (auto split: if_splits)
  qed
qed

function expandLoop ::
  "real list list \<Rightarrow> int list \<Rightarrow> nat list \<Rightarrow> nat \<Rightarrow> real \<Rightarrow> nat \<Rightarrow> nat \<Rightarrow> int list" where
  "expandLoop matrix labels [] cid eps minPts n = labels"
| "expandLoop matrix labels (q # queue) cid eps minPts n =
     (let labels1 = (if q < length labels \<and> labels ! q = 0
                     then labels[q := int cid] else labels)
      in if \<not> (q < length labels1 \<and> labels1 ! q = - 1)
         then expandLoop matrix labels1 queue cid eps minPts n
         else
           (let labels2 = labels1[q := int cid];
                qNeighbors = regionQuery matrix q eps n;
                queue2 = (if length qNeighbors \<ge> minPts
                          then foldl (\<lambda>qu neighbor. if neighbor \<in> set qu then qu
                                                      else qu @ [neighbor]) queue qNeighbors
                          else queue)
            in expandLoop matrix labels2 queue2 cid eps minPts n))"
  by pat_completeness auto
termination
proof (relation "(\<lambda>(matrix, labels, queue, cid, eps, minPts, n).
                   count_list labels (- 1)) <*mlex*>
                 measure (\<lambda>(matrix, labels, queue, cid, eps, minPts, n). length queue)")
  show "wf ((\<lambda>(matrix, labels, queue, cid, eps, minPts, n). count_list labels (- 1)) <*mlex*>
            measure (\<lambda>(matrix, labels, queue, cid, eps, minPts, n). length queue))"
    by (simp add: wf_mlex)
next
  fix matrix :: "real list list" and labels :: "int list" and q :: nat and queue :: "nat list"
    and cid :: nat and eps :: real and minPts n :: nat and x :: "int list"
  assume "x = (if q < length labels \<and> labels ! q = 0 then labels[q := int cid] else labels)"
    and "\<not> (q < length x \<and> x ! q = - 1)"
  show "((matrix, x, queue, cid, eps, minPts, n),
         (matrix, labels, q # queue, cid, eps, minPts, n))
        \<in> (\<lambda>(matrix, labels, queue, cid, eps, minPts, n). count_list labels (- 1)) <*mlex*>
           measure (\<lambda>(matrix, labels, queue, cid, eps, minPts, n). length queue)"
    using \<open>x = _\<close> count_list_update [of q labels "int cid" "- 1"]
    by (auto simp: mlex_iff)
next
  fix matrix :: "real list list" and labels :: "int list" and q :: nat and queue :: "nat list"
    and cid :: nat and eps :: real and minPts n :: nat and x xa :: "int list" and xb xc :: "nat list"
  assume x: "x = (if q < length labels \<and> labels ! q = 0 then labels[q := int cid] else labels)"
    and u: "\<not> \<not> (q < length x \<and> x ! q = - 1)"
    and xa: "xa = x[q := int cid]"
  from x u have "x = labels" by (auto split: if_splits)
  with u xa count_list_update [of q labels "int cid" "- 1"]
  have "count_list xa (- 1) < count_list labels (- 1)" by auto
  then show "((matrix, xa, xc, cid, eps, minPts, n), matrix, labels, q # queue, cid, eps, minPts, n)
       \<in> (\<lambda>(matrix, labels, queue, cid, eps, minPts, n). count_list labels (- 1)) <*mlex*>
          measure (\<lambda>(matrix, labels, queue, cid, eps, minPts, n). length queue)"
    by (simp add: mlex_iff)
qed


definition expandCluster ::
  "real list list \<Rightarrow> int list \<Rightarrow> nat \<Rightarrow> nat list \<Rightarrow> nat \<Rightarrow> real \<Rightarrow> nat \<Rightarrow> nat \<Rightarrow> int list" where
  "expandCluster matrix labels p neighbors cid eps minPts n =
     expandLoop matrix (labels[p := int cid]) neighbors cid eps minPts n"

text \<open>The main loop of \<open>dbscanCluster\<close> over the indices still to visit; \<open>cid\<close> is the counter
  \<open>clusterId\<close>.\<close>

fun dbscanLoop ::
  "real list list \<Rightarrow> int list \<Rightarrow> nat \<Rightarrow> nat list \<Rightarrow> real \<Rightarrow> nat \<Rightarrow> nat \<Rightarrow> int list" where
  "dbscanLoop matrix labels cid [] eps minPts n = labels"
| "dbscanLoop matrix labels cid (i # is) eps minPts n =
     (if labels ! i \<noteq> - 1 then dbscanLoop matrix labels cid is eps minPts n
      else
        (let neighbors = regionQuery matrix i eps n
         in if length neighbors < minPts
            then dbscanLoop matrix (labels[i := 0]) cid is eps minPts n
            else dbscanLoop matrix (expandCluster matrix labels i neighbors cid eps minPts n)
                   (cid + 1) is eps minPts n))"

text \<open>The object \<open>clusters\<close>, as the list of its entries in the order \<open>Object.values\<close> visits
  them (ascending integer keys; the labels are non-negative once the main loop has visited every
  point); \<open>clusters[k].push(i)\<close> creates the entry when it is missing.\<close>

definition pushCluster :: "(int \<times> nat list) list \<Rightarrow> int \<Rightarrow> nat \<Rightarrow> (int \<times> nat list) list" where
  "pushCluster clusters k i =
     (if k \<in> fst ` set clusters
      then map (\<lambda>(k', members). if k' = k then (k', members @ [i]) else (k', members)) clusters
      else insort_key fst (k, [i]) clusters)"

definition groupLabels :: "int list \<Rightarrow> nat \<Rightarrow> (int \<times> nat list) list" where
  "groupLabels labels n =
     foldl (\<lambda>clusters i. if labels ! i = 0 then clusters else pushCluster clusters (labels ! i) i)
           [] [0..<n]"

text \<open>\<open>dbscanCluster\<close> returns the clusters of at least \<open>minPts\<close> members, the noise points and
  the labels; it throws when the similarity matrix cannot be computed.\<close>

definition dbscanCluster ::
  "grievance list \<Rightarrow> real \<Rightarrow> nat \<Rightarrow> error + (nat list list \<times> nat list \<times> int list)" where
  "dbscanCluster grievances eps minPts =
     (let n = length grievances
      in case computeSimilarityMatrix grievances of
           Inl e \<Rightarrow> Inl e
         | Inr similarityMatrix \<Rightarrow>
             (let labels = dbscanLoop similarityMatrix (replicate n (- 1)) 1 [0..<n] eps minPts n;
                  noise = filter (\<lambda>i. labels ! i = 0) [0..<n];
                  clusterArrays = filter (\<lambda>c. length c \<ge> minPts) (map snd (groupLabels labels n))
              in Inr (clusterArrays, noise, labels)))"

text \<open>The body of the loop \<open>for (const cluster of clusters)\<close> in \<open>applyDBSCANClustering\<close>: the
  stable sort by page number, then the upgrade of every later member that is still UNIQUE.\<close>

definition upgradeMember :: "nat \<Rightarrow> grievance list \<Rightarrow> nat \<Rightarrow> grievance list" where
  "upgradeMember primaryIdx grievances dupIdx =
     (if finalStatus (grievances ! dupIdx) = UNIQUE
      then grievances[dupIdx := (grievances ! dupIdx)\<lparr>finalStatus := NEAR_DUPLICATE,
                                   clusteredWith := Some primaryIdx, clusterBasedMatch := True\<rparr>]
      else grievances)"

text \<open>\<open>cluster.sort((a, b) => (grievances[a].pageNumber || 0) - (grievances[b].pageNumber || 0))\<close>:
  a stable sort on the page number (\<open>|| 0\<close> changes no integer).\<close>

definition sortByPage :: "grievance list \<Rightarrow> nat list \<Rightarrow> nat list" where
  "sortByPage grievances cluster = sort_key (\<lambda>a. pageNumber (grievances ! a)) cluster"

definition markCluster :: "grievance list \<Rightarrow> nat list \<Rightarrow> grievance list" where
  "markCluster grievances cluster =
     (if length cluster \<ge> 2
      then (let sorted = sortByPage grievances cluster;
                primaryIdx = hd sorted
            in foldl (upgradeMember primaryIdx) grievances (tl sorted))
      else grievances)"

text \<open>\<open>applyDBSCANClustering\<close>.  A batch of fewer than two grievances is returned untouched.\<close>

definition annotate :: "int list \<Rightarrow> grievance list \<Rightarrow> grievance list" where
  "annotate labels grievances =
     map (\<lambda>idx. (grievances ! idx)\<lparr>clusterId := Some (labels ! idx),
                    clusterSize := Some (if labels ! idx > 0
                                         then length (filter (\<lambda>l. l = labels ! idx) labels) else 0)\<rparr>)
         [0..<length grievances]"

definition applyDBSCANClustering :: "grievance list \<Rightarrow> thresholds \<Rightarrow> error + grievance list" where
  "applyDBSCANClustering grievances th =
     (if length grievances < 2 then Inr grievances
      else
        (let eps = 1 - js_or (Some (th near_duplicate)) 0.30;
             minPts = 2
         in case dbscanCluster grievances eps minPts of
              Inl e \<Rightarrow> Inl e
            | Inr (clusters, noise, labels) \<Rightarrow>
                Inr (foldl markCluster (annotate labels grievances) clusters)))"

text \<open>The clusters \<open>applyDBSCANClustering\<close> walks through (empty when nothing is clustered).\<close>

definition batchClusters :: "grievance list \<Rightarrow> thresholds \<Rightarrow> nat list list" where
  "batchClusters grievances th =
     (if length grievances < 2 then []
      else case dbscanCluster grievances (1 - js_or (Some (th near_duplicate)) 0.30) 2 of
             Inl e \<Rightarrow> []
           | Inr (clusters, noise, labels) \<Rightarrow> clusters)"

section \<open>Persisting results and forming clusters (src/batch/batchProcessor.js)\<close>

text \<open>What \<open>saveGrievancesToDB\<close> keeps of a grievance: the entry pushed to \<open>savedResults\<close>, and
  the value bound to column \<open>matched_grievance_id\<close> (\<open>g.globalMatchId || null\<close>).  Row ids are
  taken to be consecutive from \<open>firstId\<close>, and every insert to succeed.\<close>

record saved_result =
  id_num :: int
  page :: int
  status :: dup_status
  score :: real
  matchedId :: "match_id option"
  matched_grievance_id :: "match_id option"

definition falsy_id :: "match_id option \<Rightarrow> bool" where
  "falsy_id m = (m = None \<or> m = Some (Persisted 0))"

definition saveGrievancesToDB :: "grievance list \<Rightarrow> int \<Rightarrow> saved_result list" where
  "saveGrievancesToDB grievances firstId =
     map (\<lambda>idx. let g = grievances ! idx in
            \<lparr>id_num = firstId + int idx,
             page = pageNumber g,
             status = finalStatus g,
             score = js_or (globalScore g) (js_or (localScore g) 0),
             matchedId = globalMatchId g,
             matched_grievance_id = (if falsy_id (globalMatchId g) then None else globalMatchId g)\<rparr>)
         [0..<length grievances]"

record cluster =
  ctype :: dup_status
  primaryId :: int
  members :: "int list"
  scores :: "real list"

text \<open>The first loop of \<open>formDuplicateClusters\<close>: one step per result \<open>r\<close>.\<close>

definition addResult :: "(int \<times> cluster) list \<Rightarrow> saved_result \<Rightarrow> (int \<times> cluster) list" where
  "addResult clusters r =
     (if status r = DUPLICATE \<or> status r = NEAR_DUPLICATE
      then (case matchedId r of
              Some (Pending i) \<Rightarrow> clusters
            | _ \<Rightarrow>
               (let key = (if falsy_id (matchedId r) then id_num r
                           else (case matchedId r of Some (Persisted k) \<Rightarrow> k | _ \<Rightarrow> id_num r));
                    clusters1 = (if key \<in> fst ` set clusters then clusters
                                 else clusters @ [(key, \<lparr>ctype = status r, primaryId = key,
                                                           members = [], scores = []\<rparr>)])
                in map (\<lambda>(k, c). if k = key
                                   then (k, c\<lparr>members := members c @ [id_num r],
                                                scores := scores c @ [score r]\<rparr>)
                                   else (k, c)) clusters1))
      else clusters)"

text \<open>The rows the second loop inserts, when every insert succeeds: one \<open>duplicate_clusters\<close> row
  per non-empty cluster, with its \<open>cluster_members\<close> rows.  The clusters are listed in the order
  of their creation; the order in which they are inserted plays no role below.\<close>

record cluster_row =
  cluster_type :: dup_status
  primary_grievance_id :: int
  member_count :: nat
  avg_similarity_score :: real
  cluster_members :: "(int \<times> real) list"

definition formDuplicateClusters :: "saved_result list \<Rightarrow> cluster_row list" where
  "formDuplicateClusters results =
     (let clusters = foldl addResult [] results
      in map (\<lambda>(primaryId, c).
                \<lparr>cluster_type = ctype c,
                 primary_grievance_id = primaryId,
                 member_count = length (members c),
                 avg_similarity_score = sum_list (scores c) / real (length (scores c)),
                 cluster_members = zip (members c) (scores c)\<rparr>)
             (filter (\<lambda>(primaryId, c). length (members c) > 0) clusters))"


section \<open>Strings as JavaScript sees them\<close>

text \<open>\<open>s.split(sep)\<close> for a one-character separator: the empty string gives one empty piece.\<close>

fun js_split :: "char \<Rightarrow> string \<Rightarrow> string list" where
  "js_split sep [] = [[]]"
| "js_split sep (c # cs) =
     (if c = sep then [] # js_split sep cs
      else (case js_split sep cs of w # ws \<Rightarrow> (c # w) # ws | [] \<Rightarrow> [[c]]))"

fun js_join :: "string \<Rightarrow> string list \<Rightarrow> string" where
  "js_join sep [] = []"
| "js_join sep [w] = w"
| "js_join sep (w # ws) = w @ sep @ js_join sep ws"



text \<open>ASCII letters: \<open>toLowerCase\<close> and the \<open>i\<close> flag of a regular expression.\<close>

definition lower_char :: "char \<Rightarrow> char" where
  "lower_char c = (if 65 \<le> (of_char c :: nat) \<and> (of_char c :: nat) \<le> 90
                   then char_of ((of_char c :: nat) + 32) else c)"

definition toLowerCase :: "string \<Rightarrow> string" where
  "toLowerCase s = map lower_char s"

definition is_digit :: "char \<Rightarrow> bool" where
  "is_digit c = (48 \<le> (of_char c :: nat) \<and> (of_char c :: nat) \<le> 57)"

section \<open>Similarity kernel (computeContextualSimilarity, src/batch/batchProcessor.js)\<close>




record breakdown =
  bd_cosine :: real
  bd_jaccard :: real
  bd_ngram :: real
  bd_rareBoost :: real
  bd_locationBoost :: real
  bd_categoryModifier :: real
  bd_base :: real
  bd_final :: real

record similarity =
  combinedScore :: real
  score_breakdown :: breakdown









section \<open>The sums accumulated by the cosine loop\<close>

definition dot :: "(real \<times> real) list \<Rightarrow> real" where
  "dot ps = (\<Sum>(a, b)\<leftarrow>ps. a * b)"

definition sq1 :: "(real \<times> real) list \<Rightarrow> real" where
  "sq1 ps = (\<Sum>(a, b)\<leftarrow>ps. a * a)"

definition sq2 :: "(real \<times> real) list \<Rightarrow> real" where
  "sq2 ps = (\<Sum>(a, b)\<leftarrow>ps. b * b)"

section \<open>The composite score in the words of the specification\<close>











section \<open>Embedding client (src/nlp/embedding.js)\<close>

text \<open>A parsed JSON body, as far as the client inspects it.\<close>

datatype json = JNum real | JArr "json list" | JOther

text \<open>The outcome of one \<open>fetch\<close>: the promise rejects, or a response arrives with its \<open>ok\<close>
  flag and its body (\<open>None\<close> when \<open>response.json()\<close> rejects).\<close>

datatype http = FetchFails | Response bool "json option"

definition is_whitespace :: "char \<Rightarrow> bool" where
  "is_whitespace c = ((of_char c :: nat) \<in> {9, 10, 11, 12, 13, 32})"

text \<open>\<open>text.split(/\s+/).filter(w => w.length > 0)\<close>: the maximal runs of non-whitespace.\<close>

fun words_ws :: "string \<Rightarrow> string \<Rightarrow> string list" where
  "words_ws cur [] = (if cur = [] then [] else [cur])"
| "words_ws cur (c # cs) =
     (if is_whitespace c then (if cur = [] then words_ws [] cs else cur # words_ws [] cs)
      else words_ws (cur @ [c]) cs)"

text \<open>\<open>normalizeVector\<close>.\<close>

definition normalizeVector :: "real list \<Rightarrow> real list" where
  "normalizeVector vector =
     (let magnitude = sqrt (foldl (\<lambda>sum val. sum + val * val) 0 vector)
      in if magnitude = 0 then vector else map (\<lambda>val. val / magnitude) vector)"

text \<open>\<open>generateFallbackEmbedding\<close>: the hash-based 384-dimensional vector built from the
  character codes of the words alone.\<close>

definition addChar :: "nat \<Rightarrow> real list \<Rightarrow> nat \<times> char \<Rightarrow> real list" where
  "addChar idx vector ic =
     (let position = (of_char (snd ic) * (fst ic + 1) + idx) mod 384
      in vector[position := vector ! position + 1 / (real idx + 1)])"

definition addWord :: "real list \<Rightarrow> nat \<times> string \<Rightarrow> real list" where
  "addWord vector iw = foldl (addChar (fst iw)) vector (zip [0..<length (snd iw)] (snd iw))"

definition generateFallbackEmbedding :: "string \<Rightarrow> real list" where
  "generateFallbackEmbedding text =
     (let ws = words_ws [] (toLowerCase text)
      in normalizeVector (foldl addWord (replicate 384 0) (zip [0..<length ws] ws)))"

text \<open>\<open>generateEmbedding\<close>, used by the single-text submission: every failure is answered with the
  fallback vector, and the function never throws.\<close>

definition generateEmbedding :: "string \<Rightarrow> http \<Rightarrow> json" where
  "generateEmbedding text response =
     (case response of
        FetchFails \<Rightarrow> JArr (map JNum (generateFallbackEmbedding text))
      | Response ok body \<Rightarrow>
          if \<not> ok then JArr (map JNum (generateFallbackEmbedding text))
          else (case body of
                  Some (JArr vec) \<Rightarrow> JArr vec
                | _ \<Rightarrow> JArr (map JNum (generateFallbackEmbedding text))))"

text \<open>The shape test shared by the custom server and the HuggingFace branch: an array as long as
  \<open>texts\<close> whose first element is an array of length 384.\<close>

definition validBatch :: "string list \<Rightarrow> json \<Rightarrow> bool" where
  "validBatch texts embeddings =
     (case embeddings of
        JArr es \<Rightarrow> length es = length texts
                   \<and> (case es of JArr firstEmb # rest \<Rightarrow> length firstEmb = 384 | _ \<Rightarrow> False)
      | _ \<Rightarrow> False)"

text \<open>The single-text case of the HuggingFace branch: one text and an array starting with a
  number.\<close>

definition singleVector :: "string list \<Rightarrow> json \<Rightarrow> bool" where
  "singleVector texts embeddings =
     (case embeddings of
        JArr (JNum x # rest) \<Rightarrow> length texts = 1
      | _ \<Rightarrow> False)"

definition MAX_RETRIES :: nat where
  "MAX_RETRIES = 3"

text \<open>The retry loop: \<open>hf attempt\<close> is the outcome of the request of that attempt, \<open>remaining\<close>
  counts the attempts left.  When none is left the function throws.  The pauses between attempts
  are not modelled.\<close>

fun hfAttempts :: "string list \<Rightarrow> (nat \<Rightarrow> http) \<Rightarrow> nat \<Rightarrow> nat \<Rightarrow> error + json list" where
  "hfAttempts texts hf attempt 0 =
     Inl (EmbeddingUnavailable ''Failed to generate embeddings - check API token'')"
| "hfAttempts texts hf attempt (Suc remaining) =
     (case hf attempt of
        Response True (Some embeddings) \<Rightarrow>
          if validBatch texts embeddings
          then (case embeddings of JArr es \<Rightarrow> Inr es | _ \<Rightarrow> Inr [])
          else if singleVector texts embeddings then Inr [embeddings]
          else hfAttempts texts hf (attempt + 1) remaining
      | _ \<Rightarrow> hfAttempts texts hf (attempt + 1) remaining)"

text \<open>\<open>generateBatchEmbeddings\<close>: \<open>custom\<close> is \<open>None\<close> when no custom server is configured, and
  otherwise the outcome of the request sent to it.\<close>

definition generateBatchEmbeddings ::
  "string list \<Rightarrow> http option \<Rightarrow> (nat \<Rightarrow> http) \<Rightarrow> error + json list" where
  "generateBatchEmbeddings texts custom hf =
     (if length texts = 0 then Inr []
      else (case custom of
              Some (Response True (Some embeddings)) \<Rightarrow>
                if validBatch texts embeddings
                then (case embeddings of JArr es \<Rightarrow> Inr es | _ \<Rightarrow> Inr [])
                else hfAttempts texts hf 1 MAX_RETRIES
            | _ \<Rightarrow> hfAttempts texts hf 1 MAX_RETRIES))"

text \<open>An attempt fails when the request is rejected, the status is not ok, the body is not JSON,
  or the body has neither accepted shape.\<close>

definition attemptFails :: "string list \<Rightarrow> http \<Rightarrow> bool" where
  "attemptFails texts r =
     (case r of
        Response True (Some embeddings) \<Rightarrow>
          \<not> validBatch texts embeddings \<and> \<not> singleVector texts embeddings
      | _ \<Rightarrow> True)"

definition customFails :: "string list \<Rightarrow> http option \<Rightarrow> bool" where
  "customFails texts custom =
     (case custom of
        Some (Response True (Some embeddings)) \<Rightarrow> \<not> validBatch texts embeddings
      | _ \<Rightarrow> True)"

section \<open>Vocabulary for statements about clusters\<close>

text \<open>A result takes part in cluster formation when it is a duplicate or near-duplicate whose
  match is not a \<open>batch_\<close> placeholder; its key is the matched id, or its own id when the matched
  id is falsy.\<close>

definition clusterable :: "saved_result \<Rightarrow> bool" where
  "clusterable r = ((status r = DUPLICATE \<or> status r = NEAR_DUPLICATE)
                     \<and> (case matchedId r of Some (Pending i) \<Rightarrow> False | _ \<Rightarrow> True))"

definition clusterKey :: "saved_result \<Rightarrow> int" where
  "clusterKey r = (case matchedId r of
                     Some (Persisted k) \<Rightarrow> if k = 0 then id_num r else k
                   | _ \<Rightarrow> id_num r)"

definition matched_result :: saved_result where
  "matched_result = \<lparr>id_num = 10, page = 1, status = DUPLICATE, score = 0.9,
                      matchedId = Some (Persisted 3), matched_grievance_id = Some (Persisted 3)\<rparr>"

definition membersOf :: "(int \<times> cluster) list \<Rightarrow> int \<Rightarrow> int list" where
  "membersOf cl k = (case map_of cl k of None \<Rightarrow> [] | Some c \<Rightarrow> members c)"

definition scoresOf :: "(int \<times> cluster) list \<Rightarrow> int \<Rightarrow> real list" where
  "scoresOf cl k = (case map_of cl k of None \<Rightarrow> [] | Some c \<Rightarrow> scores c)"

text \<open>A batch of two grievances from one PDF, the second a LOCAL_DUPLICATE of the first: the
  global pass copies its local score and sets no \<open>globalMatchId\<close>.\<close>

definition first_complaint :: grievance where
  "first_complaint =
     \<lparr>pageNumber = 1, processedText = ''water supply stopped sector'', embedding = [1, 0],
      category = Some ''WATER'', finalStatus = UNIQUE, globalScore = None, localScore = None,
      globalMatchId = None, clusterId = None, clusterSize = None, clusteredWith = None,
      clusterBasedMatch = False\<rparr>"

definition local_duplicate :: grievance where
  "local_duplicate =
     \<lparr>pageNumber = 2, processedText = ''water supply stopped sector'', embedding = [1, 0],
      category = Some ''WATER'', finalStatus = DUPLICATE, globalScore = Some 0.9,
      localScore = Some 0.9, globalMatchId = None, clusterId = None, clusterSize = None,
      clusteredWith = None, clusterBasedMatch = False\<rparr>"

section \<open>Vocabulary for statements about the DBSCAN pass\<close>

text \<open>The record update \<open>applyDBSCANClustering\<close> performs on a member that is still UNIQUE.\<close>

definition upgraded :: "nat \<Rightarrow> grievance \<Rightarrow> grievance" where
  "upgraded primaryIdx g =
     g\<lparr>finalStatus := NEAR_DUPLICATE, clusteredWith := Some primaryIdx, clusterBasedMatch := True\<rparr>"

text \<open>A second complaint on page 2 whose embedding equals that of \<open>first_complaint\<close> but whose
  words differ, so that the pairwise pass left it UNIQUE with composite score 0.55.\<close>

definition near_copy :: grievance where
  "near_copy =
     \<lparr>pageNumber = 2, processedText = ''tap dry since monday'', embedding = [1, 0],
      category = Some ''WATER'', finalStatus = UNIQUE, globalScore = Some 0.55, localScore = Some 0.55,
      globalMatchId = None, clusterId = None, clusterSize = None, clusteredWith = None,
      clusterBasedMatch = False\<rparr>"

section \<open>Text normalizer (src/nlp/textPreprocessing.js)\<close>

text \<open>
  The normalizer is modelled on ASCII text: there NFD normalisation changes nothing and no
  combining mark occurs, \<open>toLowerCase\<close> maps \<open>A-Z\<close> to \<open>a-z\<close>, and \<open>\s\<close> is one of the six ASCII
  white-space characters.
\<close>

definition is_lower :: "char \<Rightarrow> bool" where
  "is_lower c = (97 \<le> (of_char c :: nat) \<and> (of_char c :: nat) \<le> 122)"

definition is_upper :: "char \<Rightarrow> bool" where
  "is_upper c = (65 \<le> (of_char c :: nat) \<and> (of_char c :: nat) \<le> 90)"

definition is_alnum :: "char \<Rightarrow> bool" where
  "is_alnum c = (is_lower c \<or> is_upper c \<or> is_digit c)"

text \<open>\<open>\w\<close>, which decides the word boundaries \<open>\b\<close>.\<close>

definition is_word :: "char \<Rightarrow> bool" where
  "is_word c = (is_alnum c \<or> c = CHR ''_'')"

subsection \<open>The regular expressions of the three sweeps\<close>

text \<open>
  The patterns use literals, greedy bounded repetitions of a character class, one optional group
  of such atoms, and word boundaries.  Matching is by backtracking, as in JavaScript: a
  repetition first takes as many characters as it can and gives back one at a time, an optional
  group is first tried and then skipped.  A match is reported by its length.
\<close>

datatype atom = Lit string | Cls "char \<Rightarrow> bool" nat "nat option"

datatype rx = A atom | Opt "atom list" | WordB

text \<open>\<open>try_down f lo n\<close>: the first of \<open>n, n - 1, ..., lo\<close> at which \<open>f\<close> succeeds.\<close>

fun try_down :: "(nat \<Rightarrow> nat option) \<Rightarrow> nat \<Rightarrow> nat \<Rightarrow> nat option" where
  "try_down f lo 0 = (if lo = 0 then f 0 else None)"
| "try_down f lo (Suc n) =
     (if Suc n < lo then None
      else (case f (Suc n) of Some r \<Rightarrow> Some r | None \<Rightarrow> try_down f lo n))"

text \<open>The character before the position reached after \<open>n\<close> more characters of \<open>s\<close>.\<close>

definition prev_after :: "char option \<Rightarrow> string \<Rightarrow> nat \<Rightarrow> char option" where
  "prev_after prev s n = (if n = 0 then prev else Some (s ! (n - 1)))"

definition lit_matches :: "bool \<Rightarrow> string \<Rightarrow> string \<Rightarrow> bool" where
  "lit_matches ci l s =
     (length l \<le> length s
      \<and> (if ci then map lower_char (take (length l) s) = map lower_char l
          else take (length l) s = l))"

text \<open>Atoms followed by the continuation \<open>k\<close>; \<open>ci\<close> is the flag \<open>i\<close>, under which a literal
  matches in either case (the classes of the one pattern that carries the flag list both cases
  themselves).\<close>

fun match_atoms ::
  "bool \<Rightarrow> atom list \<Rightarrow> (char option \<Rightarrow> string \<Rightarrow> nat option) \<Rightarrow> char option \<Rightarrow> string \<Rightarrow> nat option" where
  "match_atoms ci [] k prev s = k prev s"
| "match_atoms ci (Lit l # as) k prev s =
     (if lit_matches ci l s
      then map_option (\<lambda>r. length l + r)
             (match_atoms ci as k (prev_after prev s (length l)) (drop (length l) s))
      else None)"
| "match_atoms ci (Cls p lo hi # as) k prev s =
     (let avail = length (takeWhile p s);
          most = (case hi of None \<Rightarrow> avail | Some h \<Rightarrow> min h avail)
      in try_down (\<lambda>n. map_option (\<lambda>r. n + r) (match_atoms ci as k (prev_after prev s n) (drop n s)))
           lo most)"

definition at_boundary :: "char option \<Rightarrow> string \<Rightarrow> bool" where
  "at_boundary prev s =
     ((case prev of None \<Rightarrow> False | Some c \<Rightarrow> is_word c)
      \<noteq> (case s of [] \<Rightarrow> False | c # cs \<Rightarrow> is_word c))"

fun match_rx :: "bool \<Rightarrow> rx list \<Rightarrow> char option \<Rightarrow> string \<Rightarrow> nat option" where
  "match_rx ci [] prev s = Some 0"
| "match_rx ci (A a # rs) prev s = match_atoms ci [a] (\<lambda>p t. match_rx ci rs p t) prev s"
| "match_rx ci (Opt g # rs) prev s =
     (case match_atoms ci g (\<lambda>p t. match_rx ci rs p t) prev s of
        Some r \<Rightarrow> Some r
      | None \<Rightarrow> match_rx ci rs prev s)"
| "match_rx ci (WordB # rs) prev s = (if at_boundary prev s then match_rx ci rs prev s else None)"

text \<open>\<open>text.replace(pattern, ' ')\<close> with flag \<open>g\<close>: scanning from the left, a match is replaced by
  one space and the scan resumes behind it; \<open>skip\<close> counts the characters of the current match
  still to be dropped.\<close>

fun replace_all :: "(char option \<Rightarrow> string \<Rightarrow> nat option) \<Rightarrow> char option \<Rightarrow> nat \<Rightarrow> string \<Rightarrow> string" where
  "replace_all m prev skip [] = []"
| "replace_all m prev skip (c # cs) =
     (if skip > 0 then replace_all m (Some c) (skip - 1) cs
      else (case m prev (c # cs) of
              None \<Rightarrow> c # replace_all m (Some c) 0 cs
            | Some n \<Rightarrow> if n = 0 then c # replace_all m (Some c) 0 cs
                        else CHR '' '' # replace_all m (Some c) (n - 1) cs))"

definition in_chars :: "string \<Rightarrow> char \<Rightarrow> bool" where
  "in_chars cs c = (c \<in> set cs)"

definition urlPattern :: "rx list" where
  "urlPattern =
     [A (Lit ''http''), A (Cls (in_chars ''sS'') 0 (Some 1)), A (Lit ''://''), Opt [Lit ''www.''],
      A (Cls (\<lambda>c. is_alnum c \<or> in_chars ''-@:%._+~#='' c) 1 (Some 256)),
      A (Lit ''.''),
      A (Cls (\<lambda>c. is_alnum c \<or> in_chars ''()'' c) 1 (Some 6)),
      WordB,
      A (Cls (\<lambda>c. is_alnum c \<or> in_chars ''-()@:%_+.~#?&/='' c) 0 None)]"

definition emailPattern :: "rx list" where
  "emailPattern =
     [WordB,
      A (Cls (\<lambda>c. is_alnum c \<or> in_chars ''._%+-'' c) 1 None),
      A (Lit ''@''),
      A (Cls (\<lambda>c. is_alnum c \<or> in_chars ''.-'' c) 1 None),
      A (Lit ''.''),
      A (Cls (\<lambda>c. is_lower c \<or> is_upper c \<or> c = CHR ''|'') 2 None),
      WordB]"

definition phonePattern1 :: "rx list" where
  "phonePattern1 =
     [Opt [Lit ''+'', Cls is_digit 1 (Some 3), Cls (in_chars ''- '') 0 (Some 1)],
      A (Cls is_digit 10 (Some 10))]"

definition phonePattern2 :: "rx list" where
  "phonePattern2 =
     [A (Lit ''(''), A (Cls is_digit 3 (Some 3)), A (Lit '')''), A (Cls is_whitespace 0 None),
      A (Cls is_digit 3 (Some 3)), A (Cls (in_chars ''-'') 0 (Some 1)),
      A (Cls is_digit 4 (Some 4))]"

definition normalizeUnicode :: "string \<Rightarrow> string" where
  "normalizeUnicode text = text"

definition removeUrls :: "string \<Rightarrow> string" where
  "removeUrls text = replace_all (match_rx True urlPattern) None 0 text"

definition removeEmails :: "string \<Rightarrow> string" where
  "removeEmails text = replace_all (match_rx False emailPattern) None 0 text"

definition removePhoneNumbers :: "string \<Rightarrow> string" where
  "removePhoneNumbers text =
     replace_all (\<lambda>prev s. case match_rx False phonePattern1 prev s of
                              Some n \<Rightarrow> Some n
                            | None \<Rightarrow> match_rx False phonePattern2 prev s) None 0 text"

definition removeSpecialChars :: "string \<Rightarrow> string" where
  "removeSpecialChars text =
     map (\<lambda>c. if is_lower c \<or> is_digit c \<or> is_whitespace c then c else CHR '' '') text"

text \<open>\<open>replace(/\s+/g, ' ')\<close>: \<open>seen\<close> tells that the preceding character was white space.\<close>

fun collapse :: "bool \<Rightarrow> string \<Rightarrow> string" where
  "collapse seen [] = []"
| "collapse seen (c # cs) =
     (if is_whitespace c then (if seen then collapse True cs else CHR '' '' # collapse True cs)
      else c # collapse False cs)"

definition trim :: "string \<Rightarrow> string" where
  "trim s = rev (dropWhile is_whitespace (rev (dropWhile is_whitespace s)))"

definition normalizeWhitespace :: "string \<Rightarrow> string" where
  "normalizeWhitespace text = trim (collapse False text)"

definition STOPWORDS :: "string list" where
  "STOPWORDS =
    [''i'', ''me'', ''my'', ''myself'', ''we'', ''our'', ''ours'', ''ourselves'', ''you'', ''your'',
     ''yours'', ''yourself'', ''yourselves'', ''he'', ''him'', ''his'', ''himself'', ''she'',
     ''her'', ''hers'', ''herself'', ''it'', ''its'', ''itself'', ''they'', ''them'', ''their'',
     ''theirs'', ''themselves'', ''what'', ''which'', ''who'', ''whom'', ''this'', ''that'',
     ''these'', ''those'', ''am'', ''is'', ''are'', ''was'', ''were'', ''be'', ''been'', ''being'',
     ''have'', ''has'', ''had'', ''having'', ''do'', ''does'', ''did'', ''doing'', ''a'', ''an'',
     ''the'', ''and'', ''but'', ''if'', ''or'', ''because'', ''as'', ''until'', ''while'', ''of'',
     ''at'', ''by'', ''for'', ''with'', ''about'', ''against'', ''between'', ''into'', ''through'',
     ''during'', ''before'', ''after'', ''above'', ''below'', ''to'', ''from'', ''up'', ''down'',
     ''in'', ''out'', ''on'', ''off'', ''over'', ''under'', ''again'', ''further'', ''then'',
     ''once'', ''here'', ''there'', ''when'', ''where'', ''why'', ''how'', ''all'', ''both'',
     ''each'', ''few'', ''more'', ''most'', ''other'', ''some'', ''such'', ''no'', ''nor'', ''not'',
     ''only'', ''own'', ''same'', ''so'', ''than'', ''too'', ''very'', ''s'', ''t'', ''can'', ''will'',
     ''just'', ''don'', ''should'', ''now'']"

definition removeStopwords :: "string \<Rightarrow> string" where
  "removeStopwords text =
     js_join '' '' (filter (\<lambda>word. word \<notin> set STOPWORDS \<and> length word > 1)
                          (js_split CHR '' '' text))"

text \<open>\<open>irregulars[word]\<close>: the own properties of the object literal and, because it is a plain
  object, the inherited \<open>constructor\<close>, whose value is a function that \<open>join\<close> later turns into its
  source text.\<close>

definition irregulars :: "(string \<times> string) list" where
  "irregulars =
    [(''complained'', ''complain''), (''complaints'', ''complain''),
     (''issues'', ''issue''), (''problems'', ''problem''),
     (''services'', ''service''), (''products'', ''product''),
     (''requests'', ''request''), (''responses'', ''response''),
     (''delayed'', ''delay''), (''delays'', ''delay''),
     (''refunds'', ''refund''), (''refunded'', ''refund''),
     (''resolved'', ''resolve''), (''resolving'', ''resolve''),
     (''received'', ''receive''), (''receiving'', ''receive''),
     (''damaged'', ''damage''), (''damaging'', ''damage''),
     (''charged'', ''charge''), (''charges'', ''charge''),
     (''cancelled'', ''cancel''), (''cancelling'', ''cancel''),
     (''constructor'', ''function Object() { [native code] }'')]"

text \<open>A suffix rule: the suffixes its pattern can match at the end of the word (longest first),
  the replacement, and the minimal length of the word.\<close>

definition rules :: "(string list \<times> string \<times> nat) list" where
  "rules =
    [([''ications'', ''ication''], ''icate'', 7),
     ([''ational''], ''ate'', 7),
     ([''tional''], ''tion'', 6),
     ([''encies''], ''ency'', 6),
     ([''ancies''], ''ancy'', 6),
     ([''ement''], '''', 6),
     ([''ments''], '''', 6),
     ([''ness''], '''', 5),
     ([''ities''], ''ity'', 6),
     ([''ings'', ''ing''], '''', 5),
     ([''edly''], '''', 5),
     ([''ied''], ''y'', 4),
     ([''ies''], ''y'', 4),
     ([''ed''], '''', 4),
     ([''es''], '''', 4),
     ([''s''], '''', 3),
     ([''tion''], ''te'', 5),
     ([''ment''], '''', 5),
     ([''ful''], '''', 5),
     ([''ous''], '''', 5),
     ([''ive''], '''', 5),
     ([''ize''], '''', 5),
     ([''ise''], '''', 5),
     ([''ly''], '''', 4),
     ([''er''], '''', 4),
     ([''or''], '''', 4)]"

definition ends_with :: "string \<Rightarrow> string \<Rightarrow> bool" where
  "ends_with word suffix =
     (length suffix \<le> length word \<and> drop (length word - length suffix) word = suffix)"

text \<open>The loop over the rules: the first rule that applies rewrites the word and ends the loop.\<close>

fun applyRules :: "(string list \<times> string \<times> nat) list \<Rightarrow> string \<Rightarrow> string" where
  "applyRules [] word = word"
| "applyRules ((suffixes, replacement, minLen) # rest) word =
     (case (if length word \<ge> minLen then find (ends_with word) suffixes else None) of
        Some suffix \<Rightarrow> take (length word - length suffix) word @ replacement
      | None \<Rightarrow> applyRules rest word)"

definition lemmatizeWord :: "string \<Rightarrow> string" where
  "lemmatizeWord word =
     (if length word \<le> 2 then word
      else (case map_of irregulars word of
              Some lemma \<Rightarrow> lemma
            | None \<Rightarrow> (let lemma = applyRules rules word
                       in if lemma = [] then word else lemma)))"

definition simpleLemmatization :: "string \<Rightarrow> string" where
  "simpleLemmatization text = js_join '' '' (map lemmatizeWord (js_split CHR '' '' text))"

definition preprocessText :: "string \<Rightarrow> string" where
  "preprocessText text =
     (if text = [] then []
      else trim (simpleLemmatization (removeStopwords (normalizeWhitespace (removeSpecialChars
             (removePhoneNumbers (removeEmails (removeUrls (toLowerCase (normalizeUnicode text))))))))))"

text \<open>The first steps of \<open>processGrievance\<close>, the handler of a single text submission: the text
  is normalized, and the embedding that is stored and compared with the corpus is whatever
  \<open>generateEmbedding\<close> returns.\<close>

definition processGrievanceEmbedding :: "string \<Rightarrow> http \<Rightarrow> json" where
  "processGrievanceEmbedding grievanceText response =
     generateEmbedding (preprocessText grievanceText) response"

subsection \<open>Normal forms\<close>

text \<open>A normal form is a space-joined list of tokens of lower-case letters and digits, each longer
  than one character, not a stop word and left alone by \<open>lemmatizeWord\<close>, in which no ten digits
  follow one another.\<close>

definition good_token :: "string \<Rightarrow> bool" where
  "good_token w = (length w > 1 \<and> list_all (\<lambda>c. is_lower c \<or> is_digit c) w
                    \<and> w \<notin> set STOPWORDS \<and> lemmatizeWord w = w)"

fun no_digit_run :: "string \<Rightarrow> bool" where
  "no_digit_run [] = True"
| "no_digit_run (c # cs) = (length (takeWhile is_digit (c # cs)) < 10 \<and> no_digit_run cs)"

definition normal_form :: "string \<Rightarrow> bool" where
  "normal_form y = ((y = [] \<or> list_all good_token (js_split CHR '' '' y)) \<and> no_digit_run y)"

definition is_ascii :: "char \<Rightarrow> bool" where
  "is_ascii c = ((of_char c :: nat) < 128)"

definition clean_char :: "char \<Rightarrow> bool" where
  "clean_char c = (is_lower c \<or> is_digit c \<or> c = CHR '' '')"

text \<open>Lists of non-empty tokens without white space, joined by single spaces.\<close>

definition token :: "string \<Rightarrow> bool" where
  "token w = (w \<noteq> [] \<and> (\<forall>c\<in>set w. \<not> is_whitespace c))"

section \<open>Double-precision arithmetic\<close>

text \<open>
  A JavaScript number is an IEEE 754 double.  Where only comparisons and the structure of a
  computation matter, the sections above read the arithmetic operators over the reals.  Where
  the value of a sum, product, quotient or square root matters, the operation is followed by
  \<open>round64\<close>, the rounding to the nearest double with ties to the even significand: a finite
  double is \<open>m * 2^(e - 52)\<close> for integers \<open>\<bar>m\<bar> < 2^53\<close> and \<open>- 1022 \<le> e \<le> 1023\<close>, and the
  exponent \<open>e\<close> of a real \<open>x\<close> is \<open>\<lfloor>log\<^sub>2 \<bar>x\<bar>\<rfloor>\<close>, or \<open>- 1022\<close> when that is smaller (the subnormal
  range).  The sign of zero is not modelled.
\<close>

text \<open>Rounding to the nearest integer, a tie going to the even one.\<close>

definition rne :: "real \<Rightarrow> int" where
  "rne y = (let f = \<lfloor>y\<rfloor>; d = y - of_int f
            in if d < 1 / 2 then f else if 1 / 2 < d then f + 1
               else if even f then f else f + 1)"

definition expo :: "real \<Rightarrow> int" where
  "expo x = max \<lfloor>log 2 \<bar>x\<bar>\<rfloor> (- 1022)"

definition round64 :: "real \<Rightarrow> real" where
  "round64 x = (if x = 0 then 0
     else of_int (rne (x / 2 powi (expo x - 52))) * 2 powi (expo x - 52))"

text \<open>A rounded result of magnitude \<open>2^1024\<close> or more is not a finite double: the operation
  gives an infinity.\<close>

definition finite64 :: "real \<Rightarrow> bool" where
  "finite64 x = (\<bar>x\<bar> < 2 ^ 1024)"

text \<open>The reals that the rounding leaves alone; a stored number and the value of a numeric
  literal are of this kind.\<close>

definition is_double :: "real \<Rightarrow> bool" where
  "is_double v = (round64 v = v)"

subsection \<open>The threshold update in doubles\<close>

text \<open>
  \<open>updateThresholdsFromFeedback\<close> with its one arithmetic operation,
  \<open>currentValue + adjustment\<close>, carried out in doubles.  The literals \<open>0.05\<close>, \<open>0.3\<close> and
  \<open>0.95\<close> and the defaults of a missing row denote the doubles nearest to them; a number read
  from the table is a double already, and \<open>round64\<close> leaves it alone.  \<open>Math.max\<close> and
  \<open>Math.min\<close> return one of their arguments.
\<close>

definition updateThresholdsFromFeedback64 :: "feedback \<Rightarrow> db \<Rightarrow> error + (thresholds \<times> db)" where
  "updateThresholdsFromFeedback64 fb env =
    (let currentThresholds = getAdaptiveThresholds env;
         (thresholdToAdjust, adjustment) = chooseAdjustment fb
     in case thresholdToAdjust of
          None \<Rightarrow> Inr (currentThresholds, env)
        | Some k \<Rightarrow>
            (case env of
               Unavailable \<Rightarrow> Inl DBError
             | Store rows \<Rightarrow>
                 (let currentValue = round64 (currentThresholds k);
                      newValue = max (round64 (minVal rows k))
                                     (min (round64 (maxVal rows k))
                                          (round64 (currentValue + round64 adjustment)))
                  in Inr (currentThresholds(k := newValue), Store (updateRow rows k newValue)))))"

fun applyFeedbacks64 :: "feedback list \<Rightarrow> db \<Rightarrow> error + db" where
  "applyFeedbacks64 [] env = Inr env"
| "applyFeedbacks64 (fb # fbs) env =
     (case updateThresholdsFromFeedback64 fb env of
        Inl e \<Rightarrow> Inl e
      | Inr (th, env') \<Rightarrow> applyFeedbacks64 fbs env')"

text \<open>The duplicate threshold as read back after \<open>n\<close> events \<open>UNIQUE \<rightarrow> DUPLICATE\<close>
  (\<open>None\<close> when an update threw).\<close>

definition duplicateAfter64 :: "nat \<Rightarrow> db \<Rightarrow> real option" where
  "duplicateAfter64 n env =
     (case applyFeedbacks64 (replicate n unique_to_duplicate) env of
        Inl e \<Rightarrow> None
      | Inr env' \<Rightarrow> Some (getAdaptiveThresholds env' duplicate))"

text \<open>A row as the REAL columns hold it, and the table the migration leaves: each decimal
  literal of the INSERT is stored as the double nearest to it.\<close>

definition stored64 :: "threshold_row \<Rightarrow> threshold_row" where
  "stored64 r = r\<lparr>current_value := round64 (current_value r),
                  min_value := map_option round64 (min_value r),
                  max_value := map_option round64 (max_value r)\<rparr>"

definition seed_rows64 :: "threshold_row list" where
  "seed_rows64 = map stored64 seed_rows"

text \<open>The row of kind \<open>k\<close> exists, its value is a double and lies between the bounds the
  update uses.\<close>

definition within_bounds64 :: "threshold_row list \<Rightarrow> kind \<Rightarrow> bool" where
  "within_bounds64 rows k =
     (case selectBounds rows k of
        None \<Rightarrow> False
      | Some r \<Rightarrow> is_double (current_value r)
                 \<and> round64 (minVal rows k) \<le> current_value r
                 \<and> current_value r \<le> round64 (maxVal rows k))"

subsection \<open>The cosine similarity in doubles\<close>

text \<open>
  \<open>cosineSimilarity\<close> on vectors of doubles, every product, sum, square root and quotient
  rounded (\<open>Math.sqrt\<close> is the correctly rounded square root).  The loop stops with \<open>None\<close> at the first result that is not a finite double, and
  the function then answers \<open>Inr None\<close>: the number it returns (an infinity, NaN, or a number
  computed from one) is not followed further.
\<close>

fun cosineLoop64 ::
  "real \<times> real \<times> real \<Rightarrow> (real \<times> real) list \<Rightarrow> (real \<times> real \<times> real) option" where
  "cosineLoop64 acc [] = Some acc"
| "cosineLoop64 (dotProduct, mag1, mag2) ((a, b) # rest) =
     (let ab = round64 (a * b); aa = round64 (a * a); bb = round64 (b * b);
          dotProduct' = round64 (dotProduct + ab);
          mag1' = round64 (mag1 + aa);
          mag2' = round64 (mag2 + bb)
      in if list_all finite64 [ab, aa, bb, dotProduct', mag1', mag2']
         then cosineLoop64 (dotProduct', mag1', mag2') rest
         else None)"

definition cosineSimilarity64 :: "real list \<Rightarrow> real list \<Rightarrow> error + real option" where
  "cosineSimilarity64 vec1 vec2 =
    (if length vec1 \<noteq> length vec2 then Inl DimensionMismatch
     else case cosineLoop64 (0, 0, 0) (zip vec1 vec2) of
            None \<Rightarrow> Inr None
          | Some (dotProduct, mag1, mag2) \<Rightarrow>
              (let mag1 = round64 (sqrt mag1);
                   mag2 = round64 (sqrt mag2)
               in if mag1 = 0 \<or> mag2 = 0 then Inr (Some 0)
                  else let product = round64 (mag1 * mag2);
                           quotient = round64 (dotProduct / product)
                       in if product \<noteq> 0 \<and> finite64 product \<and> finite64 quotient
                          then Inr (Some quotient)
                          else Inr None))"

section \<open>Rounding to double precision\<close>

lemma rne_near: "\<bar>y - of_int m\<bar> < 1 / 2 \<Longrightarrow> rne y = m"
proof -
  assume a: "\<bar>y - of_int m\<bar> < 1 / 2"
  show ?thesis
  proof (cases "of_int m \<le> y")
    case True
    with a have "\<lfloor>y\<rfloor> = m" by (intro floor_unique) linarith+
    with a True show ?thesis by (simp add: rne_def Let_def)
  next
    case False
    with a have "\<lfloor>y\<rfloor> = m - 1" by (intro floor_unique) (simp, linarith+)
    with a False show ?thesis by (auto simp: rne_def Let_def)
  qed
qed

lemma rne_of_int: "rne (of_int n) = n"
  by (rule rne_near) simp

lemma rne_bounds: "\<lfloor>y\<rfloor> \<le> rne y" "rne y \<le> \<lfloor>y\<rfloor> + 1"
  by (simp_all add: rne_def Let_def)

lemma rne_mono: "y \<le> z \<Longrightarrow> rne y \<le> rne z"
proof -
  assume le: "y \<le> z"
  then have f: "\<lfloor>y\<rfloor> \<le> \<lfloor>z\<rfloor>" by (rule floor_mono)
  show ?thesis
  proof (cases "\<lfloor>y\<rfloor> = \<lfloor>z\<rfloor>")
    case True
    with le show ?thesis by (auto simp: rne_def Let_def)
  next
    case False
    with f have "\<lfloor>y\<rfloor> + 1 \<le> \<lfloor>z\<rfloor>" by simp
    with rne_bounds(2) [of y] rne_bounds(1) [of z] show ?thesis by linarith
  qed
qed

lemma rne_le: "y \<le> of_int n \<Longrightarrow> rne y \<le> n"
  using rne_mono [of y "of_int n"] by (simp add: rne_of_int)

lemma rne_ge: "of_int n \<le> y \<Longrightarrow> n \<le> rne y"
  using rne_mono [of "of_int n" y] by (simp add: rne_of_int)

lemma rne_minus: "rne (- y) = - rne y"
proof (cases "y = of_int \<lfloor>y\<rfloor>")
  case True
  then obtain n where "y = of_int n" ..
  then have "- y = of_int (- n)" by simp
  then show ?thesis using \<open>y = of_int n\<close> by (simp only: rne_of_int)
next
  case False
  then have fm: "\<lfloor>- y\<rfloor> = - \<lfloor>y\<rfloor> - 1"
    by (simp add: floor_minus ceiling_altdef)
  have lt: "of_int \<lfloor>y\<rfloor> < y"
    using False of_int_floor_le [of y] by linarith
  show ?thesis
    unfolding rne_def Let_def fm using lt by (auto simp: algebra_simps)
qed

lemma rne_err: "\<bar>of_int (rne y) - y\<bar> \<le> 1 / 2"
  by (auto simp: rne_def Let_def abs_if) linarith+


lemma p2_pos: "0 < (2::real) powi k"
  by (simp add: zero_less_power_int)

lemma p2_add: "(2::real) powi (a + b) = 2 powi a * 2 powi b"
  by (simp add: power_int_add)

lemma p2_mono: "a \<le> b \<Longrightarrow> (2::real) powi a \<le> 2 powi b"
  by (rule power_int_increasing) simp_all

lemma p2_less: "a < b \<Longrightarrow> (2::real) powi a < 2 powi b"
  by (rule power_int_strict_increasing) simp_all

lemma floor_log2:
  "0 < x \<Longrightarrow> (\<lfloor>log 2 x\<rfloor> = k) = (2 powi k \<le> x \<and> x < 2 powi (k + 1))"
proof -
  have a: "(2::real) powr real_of_int k = 2 powi k"
    by (simp add: powr_real_of_int')
  have b: "(2::real) powr real_of_int (k + 1) = 2 powi (k + 1)"
    by (rule powr_real_of_int') simp_all
  assume "0 < x"
  then show ?thesis
    using floor_log_eq_powr_iff [of x 2 k] by (simp only: a b)
qed

lemma expo_ge: "- 1022 \<le> expo x"
  by (simp add: expo_def)

lemma expo_upper: "x \<noteq> 0 \<Longrightarrow> \<bar>x\<bar> < 2 powi (expo x + 1)"
proof -
  assume "x \<noteq> 0"
  then have "\<bar>x\<bar> < 2 powi (\<lfloor>log 2 \<bar>x\<bar>\<rfloor> + 1)"
    using floor_log2 [of "\<bar>x\<bar>" "\<lfloor>log 2 \<bar>x\<bar>\<rfloor>"] by simp
  also have "\<dots> \<le> 2 powi (expo x + 1)"
    by (rule p2_mono) (simp add: expo_def)
  finally show ?thesis .
qed

lemma expo_lower: "x \<noteq> 0 \<Longrightarrow> expo x \<noteq> - 1022 \<Longrightarrow> 2 powi (expo x) \<le> \<bar>x\<bar>"
proof -
  assume "x \<noteq> 0" "expo x \<noteq> - 1022"
  then have "expo x = \<lfloor>log 2 \<bar>x\<bar>\<rfloor>" by (auto simp: expo_def max_def split: if_splits)
  then show ?thesis
    using floor_log2 [of "\<bar>x\<bar>" "\<lfloor>log 2 \<bar>x\<bar>\<rfloor>"] \<open>x \<noteq> 0\<close> by simp
qed

lemma expo_eq:
  assumes "2 powi e \<le> \<bar>x\<bar>" "\<bar>x\<bar> < 2 powi (e + 1)" "- 1022 \<le> e"
  shows "expo x = e"
proof -
  have "0 < \<bar>x\<bar>" using assms(1) p2_pos [of e] by linarith
  then have "\<lfloor>log 2 \<bar>x\<bar>\<rfloor> = e" using assms by (simp add: floor_log2)
  then show ?thesis using assms(3) by (simp add: expo_def)
qed

lemma expo_sub:
  assumes "x \<noteq> 0" "\<bar>x\<bar> < 2 powi (- 1022)"
  shows "expo x = - 1022"
proof -
  have "2 powi \<lfloor>log 2 \<bar>x\<bar>\<rfloor> \<le> \<bar>x\<bar>"
    using floor_log2 [of "\<bar>x\<bar>" "\<lfloor>log 2 \<bar>x\<bar>\<rfloor>"] assms(1) by simp
  with assms(2) have "(2::real) powi \<lfloor>log 2 \<bar>x\<bar>\<rfloor> < 2 powi (- 1022)" by linarith
  then have "\<lfloor>log 2 \<bar>x\<bar>\<rfloor> < - 1022"
    using p2_mono [of "- 1022" "\<lfloor>log 2 \<bar>x\<bar>\<rfloor>"] by (cases "\<lfloor>log 2 \<bar>x\<bar>\<rfloor> < - 1022") auto
  then show ?thesis by (simp add: expo_def)
qed

lemma expo_minus: "expo (- x) = expo x"
  by (simp add: expo_def)

lemma expo_mono:
  assumes "x \<noteq> 0" "\<bar>x\<bar> \<le> \<bar>z\<bar>"
  shows "expo x \<le> expo z"
proof -
  have "0 < \<bar>x\<bar>" using assms by simp
  then have "log 2 \<bar>x\<bar> \<le> log 2 \<bar>z\<bar>" using assms(2) by simp
  then have "\<lfloor>log 2 \<bar>x\<bar>\<rfloor> \<le> \<lfloor>log 2 \<bar>z\<bar>\<rfloor>" by (rule floor_mono)
  then show ?thesis by (simp add: expo_def)
qed

lemma round64_zero: "round64 0 = 0"
  by (simp add: round64_def)

lemma round64_nz:
  "x \<noteq> 0 \<Longrightarrow> round64 x = of_int (rne (x / 2 powi (expo x - 52))) * 2 powi (expo x - 52)"
  by (simp add: round64_def)

lemma round64_minus: "round64 (- x) = - round64 x"
  by (simp add: round64_def expo_minus rne_minus)

text \<open>The rounding of a number whose binade and nearest significand are known.\<close>

lemma round64_eval:
  assumes "2 powi e \<le> \<bar>x\<bar>" "\<bar>x\<bar> < 2 powi (e + 1)" "- 1022 \<le> e"
    and "\<bar>x / 2 powi (e - 52) - of_int m\<bar> < 1 / 2"
  shows "round64 x = of_int m * 2 powi (e - 52)"
proof -
  have nz: "x \<noteq> 0" using assms(1) p2_pos [of e] by (cases "x = 0") simp_all
  have e: "expo x = e" using assms(1-3) by (rule expo_eq)
  show ?thesis using nz e assms(4) by (simp add: round64_nz rne_near)
qed

lemma round64_eval_sub:
  assumes "x \<noteq> 0" "\<bar>x\<bar> < 2 powi (- 1022)"
    and "\<bar>x / 2 powi (- 1074) - of_int m\<bar> < 1 / 2"
  shows "round64 x = of_int m * 2 powi (- 1074)"
proof -
  have e: "expo x = - 1022" using assms(1,2) by (rule expo_sub)
  show ?thesis using assms(1,3) e by (simp add: round64_nz rne_near)
qed

text \<open>The rounding keeps the sign, is monotone, and is idempotent.\<close>

lemma round64_nonneg: "0 \<le> x \<Longrightarrow> 0 \<le> round64 x"
proof (cases "x = 0")
  case True then show ?thesis by (simp add: round64_def)
next
  case False
  assume "0 \<le> x"
  then have "0 \<le> x / 2 powi (expo x - 52)" using p2_pos [of "expo x - 52"] by simp
  then have "0 \<le> rne (x / 2 powi (expo x - 52))" using rne_ge [of 0] by simp
  then show ?thesis using False p2_pos [of "expo x - 52"] by (simp add: round64_nz)
qed

lemma round64_nonpos: "x \<le> 0 \<Longrightarrow> round64 x \<le> 0"
  using round64_nonneg [of "- x"] by (simp add: round64_minus)


lemma p2_split53: "(2::real) ^ 53 * 2 powi (e - 52) = 2 powi (e + 1)"
proof -
  have "(2::real) powi (e + 1) = 2 powi (53 + (e - 52))"
    by (rule arg_cong [where f = "\<lambda>k. 2 powi k"]) simp
  also have "\<dots> = 2 powi 53 * 2 powi (e - 52)" by (rule p2_add)
  finally show ?thesis by simp
qed

lemma p2_split52: "(2::real) ^ 52 * 2 powi (e - 52) = 2 powi e"
proof -
  have "(2::real) powi e = 2 powi (52 + (e - 52))"
    by (rule arg_cong [where f = "\<lambda>k. 2 powi k"]) simp
  also have "\<dots> = 2 powi 52 * 2 powi (e - 52)" by (rule p2_add)
  finally show ?thesis by simp
qed

text \<open>The scaled significand of a positive number lies below \<open>2^53\<close>, and at or above
  \<open>2^52\<close> when the number is normal.\<close>

lemma scaled_upper:
  assumes "0 < x"
  shows "x / 2 powi (expo x - 52) < 2 ^ 53"
proof -
  have "x < 2 powi (expo x + 1)" using expo_upper [of x] assms by simp
  also have "(2::real) powi (expo x + 1) = 2 ^ 53 * 2 powi (expo x - 52)"
    by (rule p2_split53 [symmetric])
  finally show ?thesis
    using p2_pos [of "expo x - 52"] by (simp add: pos_divide_less_eq)
qed

lemma scaled_lower:
  assumes "0 < x" "expo x \<noteq> - 1022"
  shows "2 ^ 52 \<le> x / 2 powi (expo x - 52)"
proof -
  have "(2::real) ^ 52 * 2 powi (expo x - 52) = 2 powi (expo x)"
    by (rule p2_split52)
  also have "\<dots> \<le> x" using expo_lower [of x] assms by simp
  finally show ?thesis
    using p2_pos [of "expo x - 52"] by (simp add: pos_le_divide_eq)
qed

lemma round64_upper:
  assumes "0 < x"
  shows "round64 x \<le> 2 powi (expo x + 1)"
proof -
  have "rne (x / 2 powi (expo x - 52)) \<le> 2 ^ 53"
    using scaled_upper [OF assms] by (intro rne_le) simp
  then have "real_of_int (rne (x / 2 powi (expo x - 52))) \<le> 2 ^ 53"
    by (metis of_int_le_iff of_int_numeral of_int_power)
  then have "round64 x \<le> 2 ^ 53 * 2 powi (expo x - 52)"
    using assms p2_pos [of "expo x - 52"] by (simp add: round64_nz)
  also have "\<dots> = 2 powi (expo x + 1)"
    by (rule p2_split53)
  finally show ?thesis .
qed

lemma round64_lower:
  assumes "0 < x" "expo x \<noteq> - 1022"
  shows "2 powi (expo x) \<le> round64 x"
proof -
  have "2 ^ 52 \<le> rne (x / 2 powi (expo x - 52))"
    using scaled_lower [OF assms] by (intro rne_ge) simp
  then have "2 ^ 52 \<le> real_of_int (rne (x / 2 powi (expo x - 52)))"
    by (metis of_int_le_iff of_int_numeral of_int_power)
  then have "2 ^ 52 * 2 powi (expo x - 52) \<le> round64 x"
    using assms p2_pos [of "expo x - 52"] by (simp add: round64_nz)
  moreover have "(2::real) ^ 52 * 2 powi (expo x - 52) = 2 powi (expo x)"
    by (rule p2_split52)
  ultimately show ?thesis by simp
qed

lemma round64_mono_pos:
  assumes "0 < x" "x \<le> z"
  shows "round64 x \<le> round64 z"
proof -
  have z: "0 < z" using assms by simp
  have le: "expo x \<le> expo z" using assms by (intro expo_mono) simp_all
  show ?thesis
  proof (cases "expo x = expo z")
    case True
    have "x / 2 powi (expo x - 52) \<le> z / 2 powi (expo x - 52)"
      using assms(2) p2_pos [of "expo x - 52"] by (simp add: divide_right_mono)
    then have "rne (x / 2 powi (expo x - 52)) \<le> rne (z / 2 powi (expo x - 52))"
      by (rule rne_mono)
    then show ?thesis
      using assms z True p2_pos [of "expo z - 52"] by (simp add: round64_nz)
  next
    case False
    with le have lt: "expo x + 1 \<le> expo z" by simp
    have "expo z \<noteq> - 1022" using lt expo_ge [of x] by simp
    then have "2 powi (expo z) \<le> round64 z" using z by (intro round64_lower)
    moreover have "round64 x \<le> 2 powi (expo x + 1)" using assms(1) by (rule round64_upper)
    moreover have "(2::real) powi (expo x + 1) \<le> 2 powi (expo z)" using lt by (rule p2_mono)
    ultimately show ?thesis by linarith
  qed
qed

lemma round64_mono: "x \<le> z \<Longrightarrow> round64 x \<le> round64 z"
proof -
  assume le: "x \<le> z"
  consider "0 < x" | "x \<le> 0" "0 \<le> z" | "z < 0" by linarith
  then show ?thesis
  proof cases
    case 1
    then show ?thesis using le by (rule round64_mono_pos)
  next
    case 2
    then show ?thesis using round64_nonpos [of x] round64_nonneg [of z] by linarith
  next
    case 3
    then have "round64 (- z) \<le> round64 (- x)" using le by (intro round64_mono_pos) simp_all
    then show ?thesis by (simp add: round64_minus)
  qed
qed

text \<open>Numbers of the form \<open>n * 2^(e - 52)\<close> with a 53-bit \<open>n\<close> are fixed by the rounding.\<close>

lemma round64_repr:
  assumes "- 1022 \<le> e" "2 ^ 52 \<le> n" "n < 2 ^ 53"
  shows "round64 (of_int n * 2 powi (e - 52)) = of_int n * 2 powi (e - 52)"
proof -
  have n1: "(2::real) ^ 52 \<le> of_int n"
    using assms(2) by (metis of_int_le_iff of_int_numeral of_int_power)
  have n2: "real_of_int n < 2 ^ 53"
    using assms(3) by (metis of_int_less_iff of_int_numeral of_int_power)
  have a: "(2::real) ^ 52 * 2 powi (e - 52) = 2 powi e"
    by (rule p2_split52)
  have b: "(2::real) ^ 53 * 2 powi (e - 52) = 2 powi (e + 1)"
    by (rule p2_split53)
  have pos: "0 < of_int n * (2::real) powi (e - 52)"
    using n1 p2_pos [of "e - 52"] by (intro mult_pos_pos) simp_all
  have ab: "\<bar>of_int n * (2::real) powi (e - 52)\<bar> = of_int n * 2 powi (e - 52)"
    using pos by simp
  have l: "2 powi e \<le> \<bar>of_int n * (2::real) powi (e - 52)\<bar>"
    unfolding ab a [symmetric] using n1 p2_pos [of "e - 52"] by (simp only: mult_le_cancel_right_pos)
  have u: "\<bar>of_int n * (2::real) powi (e - 52)\<bar> < 2 powi (e + 1)"
    unfolding ab b [symmetric] using n2 p2_pos [of "e - 52"] by (simp only: mult_less_cancel_right_pos)
  show ?thesis
    using p2_pos [of "e - 52"] by (intro round64_eval [OF l u assms(1)]) simp
qed

lemma round64_repr_top:
  assumes "- 1022 \<le> e"
  shows "round64 (2 powi (e + 1)) = 2 powi (e + 1)"
proof -
  have "round64 (of_int (2 ^ 52) * 2 powi ((e + 1) - 52)) = of_int (2 ^ 52) * 2 powi ((e + 1) - 52)"
    using assms by (intro round64_repr) simp_all
  moreover have "of_int (2 ^ 52) * (2::real) powi ((e + 1) - 52) = 2 powi (e + 1)"
    using p2_split52 [of "e + 1"] by simp
  ultimately show ?thesis by (simp only:)
qed

lemma round64_repr_sub:
  assumes "0 < n" "n < 2 ^ 52"
  shows "round64 (of_int n * 2 powi (- 1074)) = of_int n * 2 powi (- 1074)"
proof -
  have n2: "real_of_int n < 2 ^ 52"
    using assms(2) by (metis of_int_less_iff of_int_numeral of_int_power)
  have a: "(2::real) ^ 52 * 2 powi (- 1074) = 2 powi (- 1022)"
    using p2_split52 [of "- 1022"] by simp
  have pos: "0 < of_int n * (2::real) powi (- 1074)"
    using assms(1) p2_pos [of "- 1074"] by (intro mult_pos_pos) simp_all
  have ab: "\<bar>of_int n * (2::real) powi (- 1074)\<bar> = of_int n * 2 powi (- 1074)"
    using pos by simp
  have u: "\<bar>of_int n * (2::real) powi (- 1074)\<bar> < 2 powi (- 1022)"
    unfolding ab a [symmetric] using n2 p2_pos [of "- 1074"]
    by (simp only: mult_less_cancel_right_pos)
  show ?thesis
    using pos p2_pos [of "- 1074"] by (intro round64_eval_sub [OF _ u]) simp_all
qed

lemma round64_idem_pos:
  assumes "0 < x"
  shows "round64 (round64 x) = round64 x"
proof -
  define n where "n = rne (x / 2 powi (expo x - 52))"
  have r: "round64 x = of_int n * 2 powi (expo x - 52)"
    using assms by (simp add: round64_nz n_def)
  have n0: "0 \<le> n"
    unfolding n_def using assms p2_pos [of "expo x - 52"] by (intro rne_ge) simp
  have n53: "n \<le> 2 ^ 53"
    unfolding n_def using scaled_upper [OF assms] by (intro rne_le) simp
  consider "n = 0" | "n = 2 ^ 53" | "2 ^ 52 \<le> n" "n < 2 ^ 53" | "0 < n" "n < 2 ^ 52"
    using n0 n53 by linarith
  then show ?thesis
  proof cases
    case 1
    then have "round64 x = 0" by (simp add: r)
    then show ?thesis using round64_zero by (simp only:)
  next
    case 2
    have "round64 x = 2 powi (expo x + 1)"
      using p2_split53 [of "expo x"] by (simp add: r 2)
    then show ?thesis using round64_repr_top [OF expo_ge [of x]] by (simp only:)
  next
    case 3
    then show ?thesis unfolding r by (intro round64_repr expo_ge)
  next
    case 4
    have "expo x = - 1022"
    proof (rule ccontr)
      assume "expo x \<noteq> - 1022"
      then have "2 ^ 52 \<le> n"
        unfolding n_def using scaled_lower [OF assms] by (intro rne_ge) simp
      with 4 show False by simp
    qed
    then have "round64 x = of_int n * 2 powi (- 1074)" by (simp add: r)
    then show ?thesis using round64_repr_sub [OF 4] by (simp only:)
  qed
qed

lemma round64_idem: "round64 (round64 x) = round64 x"
proof -
  consider "0 < x" | "x = 0" | "x < 0" by linarith
  then show ?thesis
  proof cases
    case 1 then show ?thesis by (rule round64_idem_pos)
  next
    case 2 then show ?thesis by (simp add: round64_zero)
  next
    case 3
    then have "round64 (round64 (- x)) = round64 (- x)" by (intro round64_idem_pos) simp
    then show ?thesis by (simp add: round64_minus)
  qed
qed

text \<open>The rounded value lies within half a unit in the last place of the exact one.\<close>

lemma round64_error: "\<bar>round64 x - x\<bar> \<le> 2 powi (expo x - 53)"
proof (cases "x = 0")
  case True
  then show ?thesis using p2_pos [of "expo x - 53"] by (simp add: round64_zero)
next
  case False
  define u :: real where "u = 2 powi (expo x - 52)"
  have u: "0 < u" by (simp add: u_def p2_pos)
  have h: "u / 2 = 2 powi (expo x - 53)"
  proof -
    have "(2::real) powi (expo x - 52) = 2 powi (1 + (expo x - 53))"
      by (rule arg_cong [where f = "\<lambda>k. 2 powi k"]) simp
    also have "\<dots> = 2 powi 1 * 2 powi (expo x - 53)" by (rule p2_add)
    finally show ?thesis by (simp add: u_def)
  qed
  have "round64 x - x = (of_int (rne (x / u)) - x / u) * u"
    using False u by (simp add: round64_nz u_def algebra_simps)
  then have "\<bar>round64 x - x\<bar> = \<bar>of_int (rne (x / u)) - x / u\<bar> * u"
    using u by (simp add: abs_mult)
  also have "\<dots> \<le> 1 / 2 * u"
    using rne_err [of "x / u"] u by (intro mult_right_mono) simp_all
  finally show ?thesis using h by simp
qed

text \<open>A tie goes to the even significand: \<open>2^53 + 1\<close> is rounded down and \<open>2^53 + 3\<close> up.\<close>

lemma round64_ties:
  "round64 (2 ^ 53 + 1) = 2 ^ 53" "round64 (2 ^ 53 + 3) = 2 ^ 53 + 4"
proof -
  have e1: "expo (2 ^ 53 + 1) = 53" by (rule expo_eq) simp_all
  have e3: "expo (2 ^ 53 + 3) = 53" by (rule expo_eq) simp_all
  show "round64 (2 ^ 53 + 1) = 2 ^ 53"
    unfolding round64_def e1 by (simp add: rne_def Let_def)
  show "round64 (2 ^ 53 + 3) = 2 ^ 53 + 4"
    unfolding round64_def e3 by (simp add: rne_def Let_def)
qed

section \<open>Reading and updating the threshold table\<close>


lemma rows_types_updateRow: "map threshold_type (updateRow rows k v) = map threshold_type rows"
  by (induction rows) (auto simp: updateRow_def)

lemma foldl_read:
  "distinct (map threshold_type rows) \<Longrightarrow>
   foldl (\<lambda>th row. th(threshold_type row := current_value row)) th0 rows k =
     (case find (\<lambda>r. threshold_type r = k) rows of None \<Rightarrow> th0 k | Some r \<Rightarrow> current_value r)"
proof (induction rows arbitrary: th0)
  case Nil
  then show ?case by simp
next
  case (Cons r rs)
  show ?case
  proof (cases "threshold_type r = k")
    case True
    with Cons.prems have "k \<notin> threshold_type ` set rs" by auto
    then have "find (\<lambda>r. threshold_type r = k) rs = None"
      by (auto simp: find_None_iff)
    with Cons True show ?thesis by simp
  next
    case False
    with Cons show ?thesis by simp
  qed
qed

lemma read_store:
  "distinct (map threshold_type rows) \<Longrightarrow>
   getAdaptiveThresholds (Store rows) k =
     (case selectBounds rows k of None \<Rightarrow> try_defaults k | Some r \<Rightarrow> current_value r)"
  by (simp add: getAdaptiveThresholds_def selectBounds_def foldl_read)

lemma selectBounds_updateRow:
  "selectBounds (updateRow rows k v) k' =
     (if k' = k
      then map_option (\<lambda>r. r\<lparr>current_value := v,
              adjustment_count := map_option (\<lambda>c. c + 1) (adjustment_count r)\<rparr>) (selectBounds rows k)
      else selectBounds rows k')"
  by (induction rows) (auto simp: selectBounds_def updateRow_def)

lemma minVal_updateRow: "minVal (updateRow rows k v) k' = minVal rows k'"
  by (cases "selectBounds rows k") (auto simp: minVal_def selectBounds_updateRow)

lemma maxVal_updateRow: "maxVal (updateRow rows k v) k' = maxVal rows k'"
  by (cases "selectBounds rows k") (auto simp: maxVal_def selectBounds_updateRow)

text \<open>What one update does to a store with unique kinds.\<close>

lemma read_updateRow:
  assumes "distinct (map threshold_type rows)" "selectBounds rows k \<noteq> None"
  shows "getAdaptiveThresholds (Store (updateRow rows k v)) k' =
           (if k' = k then v else getAdaptiveThresholds (Store rows) k')"
  using assms
  by (auto simp: read_store rows_types_updateRow selectBounds_updateRow split: option.splits)

lemma chooseAdjustment_cases:
  "chooseAdjustment fb = (None, 0)
   \<or> chooseAdjustment fb = (Some duplicate, - LEARNING_RATE)
   \<or> chooseAdjustment fb = (Some duplicate, LEARNING_RATE)
   \<or> chooseAdjustment fb = (Some near_duplicate, - LEARNING_RATE)
   \<or> chooseAdjustment fb = (Some near_duplicate, LEARNING_RATE)"
  by (simp add: chooseAdjustment_def)

lemma update_step:
  assumes "chooseAdjustment fb = (Some k, a)"
  shows "updateThresholdsFromFeedback fb (Store rows) =
    Inr ((getAdaptiveThresholds (Store rows))
            (k := max (minVal rows k) (min (maxVal rows k) (getAdaptiveThresholds (Store rows) k + a))),
         Store (updateRow rows k
            (max (minVal rows k) (min (maxVal rows k) (getAdaptiveThresholds (Store rows) k + a)))))"
  using assms by (simp add: updateThresholdsFromFeedback_def Let_def)

lemma update_noop:
  assumes "chooseAdjustment fb = (None, a)"
  shows "updateThresholdsFromFeedback fb env = Inr (getAdaptiveThresholds env, env)"
  using assms by (simp add: updateThresholdsFromFeedback_def Let_def)

text \<open>
  C3 (as amended).  The update clamps the adjusted threshold to the bounds of its own kind and
  never compares the two thresholds.  In a table with one row per kind where the duplicate and
  near-duplicate values lie within their bounds and \<open>near_duplicate \<le> duplicate\<close>, one feedback
  update returns, keeps both values within their bounds, leaves the bounds alone, and keeps
  \<open>near_duplicate \<le> duplicate\<close> provided that the upper bound of \<open>near_duplicate\<close> is at most the
  lower bound of \<open>duplicate\<close>, or the update neither lowers \<open>duplicate\<close> nor raises
  \<open>near_duplicate\<close>.
\<close>

theorem ordering_preserved:
  assumes d: "distinct (map threshold_type rows)"
    and bd: "within_bounds rows duplicate" and bn: "within_bounds rows near_duplicate"
    and ord: "getAdaptiveThresholds (Store rows) near_duplicate
                \<le> getAdaptiveThresholds (Store rows) duplicate"
    and safe: "maxVal rows near_duplicate \<le> minVal rows duplicate
               \<or> (chooseAdjustment fb \<noteq> (Some duplicate, - LEARNING_RATE)
                  \<and> chooseAdjustment fb \<noteq> (Some near_duplicate, LEARNING_RATE))"
  shows "\<exists>th' rows'. updateThresholdsFromFeedback fb (Store rows) = Inr (th', Store rows')
           \<and> th' = getAdaptiveThresholds (Store rows')
           \<and> th' near_duplicate \<le> th' duplicate
           \<and> distinct (map threshold_type rows')
           \<and> within_bounds rows' duplicate \<and> within_bounds rows' near_duplicate
           \<and> minVal rows' = minVal rows \<and> maxVal rows' = maxVal rows"
proof -
  from bd obtain rd where rd: "selectBounds rows duplicate = Some rd"
    and rd1: "minVal rows duplicate \<le> current_value rd" and rd2: "current_value rd \<le> maxVal rows duplicate"
    by (auto simp: within_bounds_def split: option.splits)
  from bn obtain rn where rn: "selectBounds rows near_duplicate = Some rn"
    and rn1: "minVal rows near_duplicate \<le> current_value rn" and rn2: "current_value rn \<le> maxVal rows near_duplicate"
    by (auto simp: within_bounds_def split: option.splits)
  have gd: "getAdaptiveThresholds (Store rows) duplicate = current_value rd"
    using d rd by (simp add: read_store)
  have gn: "getAdaptiveThresholds (Store rows) near_duplicate = current_value rn"
    using d rn by (simp add: read_store)
  have mm: "minVal (updateRow rows k v) = minVal rows" "maxVal (updateRow rows k v) = maxVal rows" for k v
    by (auto simp: fun_eq_iff minVal_updateRow maxVal_updateRow)
  have step: ?thesis
    if ca: "chooseAdjustment fb = (Some k, a)"
      and k: "k = duplicate \<or> k = near_duplicate"
      and ok: "let v = max (minVal rows k) (min (maxVal rows k) (getAdaptiveThresholds (Store rows) k + a))
               in minVal rows k \<le> v \<and> v \<le> maxVal rows k
                  \<and> (k = duplicate \<longrightarrow> current_value rn \<le> v)
                  \<and> (k = near_duplicate \<longrightarrow> v \<le> current_value rd)"
    for k a
  proof -
    define v where "v = max (minVal rows k) (min (maxVal rows k) (getAdaptiveThresholds (Store rows) k + a))"
    have sk: "selectBounds rows k \<noteq> None" using k rd rn by auto
    have e: "updateThresholdsFromFeedback fb (Store rows) =
               Inr ((getAdaptiveThresholds (Store rows))(k := v), Store (updateRow rows k v))"
      unfolding v_def by (rule update_step [OF ca])
    have r: "getAdaptiveThresholds (Store (updateRow rows k v)) = (getAdaptiveThresholds (Store rows))(k := v)"
      using d sk by (auto simp: fun_eq_iff read_updateRow)
    have o: "((getAdaptiveThresholds (Store rows))(k := v)) near_duplicate
              \<le> ((getAdaptiveThresholds (Store rows))(k := v)) duplicate"
      using k ok ord gd gn by (auto simp: v_def [symmetric] Let_def)
    have w: "within_bounds (updateRow rows k v) duplicate" "within_bounds (updateRow rows k v) near_duplicate"
      using k ok rd rn rd1 rd2 rn1 rn2
      by (auto simp: v_def [symmetric] Let_def within_bounds_def selectBounds_updateRow mm)
    have t: "distinct (map threshold_type (updateRow rows k v))"
      using d by (simp add: rows_types_updateRow)
    show ?thesis
      apply (rule exI [of _ "(getAdaptiveThresholds (Store rows))(k := v)"])
      apply (rule exI [of _ "updateRow rows k v"])
      apply (intro conjI)
             apply (rule e)
            apply (rule r [symmetric])
           apply (rule o)
          apply (rule t)
         apply (rule w)
        apply (rule w)
       apply (rule mm)
      apply (rule mm)
      done
  qed
  consider (none) "chooseAdjustment fb = (None, 0)"
    | (dm) "chooseAdjustment fb = (Some duplicate, - LEARNING_RATE)"
    | (dp) "chooseAdjustment fb = (Some duplicate, LEARNING_RATE)"
    | (nm) "chooseAdjustment fb = (Some near_duplicate, - LEARNING_RATE)"
    | (np) "chooseAdjustment fb = (Some near_duplicate, LEARNING_RATE)"
    using chooseAdjustment_cases [of fb] by blast
  then show ?thesis
  proof cases
    case none
    show ?thesis
      apply (rule exI [of _ "getAdaptiveThresholds (Store rows)"])
      apply (rule exI [of _ rows])
      using d bd bn ord by (simp add: update_noop [OF none])
  next
    case dm
    with safe have s: "maxVal rows near_duplicate \<le> minVal rows duplicate" by simp
    show ?thesis
      using rd1 rd2 rn1 rn2 gd gn ord s
      by (intro step [OF dm]) (auto simp: Let_def LEARNING_RATE_def)
  next
    case dp
    show ?thesis
      using rd1 rd2 rn1 rn2 gd gn ord
      by (intro step [OF dp]) (auto simp: Let_def LEARNING_RATE_def)
  next
    case nm
    show ?thesis
      using rd1 rd2 rn1 rn2 gd gn ord
      by (intro step [OF nm]) (auto simp: Let_def LEARNING_RATE_def)
  next
    case np
    with safe have s: "maxVal rows near_duplicate \<le> minVal rows duplicate"
      by (simp add: LEARNING_RATE_def)
    show ?thesis
      using rd1 rd2 rn1 rn2 gd gn ord s
      by (intro step [OF np]) (auto simp: Let_def LEARNING_RATE_def)
  qed
qed


text \<open>
  C3 as stated fails from the seeded table: two \<open>UNIQUE \<rightarrow> DUPLICATE\<close> events lower
  \<open>duplicate\<close> to its minimum 0.75 and three \<open>NEAR_DUPLICATE \<rightarrow> UNIQUE\<close> events raise
  \<open>near_duplicate\<close> to its maximum 0.80.
\<close>

theorem ordering_counterexample:
  "getAdaptiveThresholds (Store seed_rows) near_duplicate
     \<le> getAdaptiveThresholds (Store seed_rows) duplicate
   \<and> (case applyFeedbacks
            [fb_transition ''UNIQUE'' ''DUPLICATE'', fb_transition ''UNIQUE'' ''DUPLICATE'',
             fb_transition ''NEAR_DUPLICATE'' ''UNIQUE'', fb_transition ''NEAR_DUPLICATE'' ''UNIQUE'',
             fb_transition ''NEAR_DUPLICATE'' ''UNIQUE''] (Store seed_rows) of
         Inl e \<Rightarrow> False
       | Inr env' \<Rightarrow> getAdaptiveThresholds env' duplicate = 0.75
                     \<and> getAdaptiveThresholds env' near_duplicate = 0.80
                     \<and> \<not> getAdaptiveThresholds env' near_duplicate
                           \<le> getAdaptiveThresholds env' duplicate)"
  by (simp add: seed_rows_def fb_transition_def
        updateThresholdsFromFeedback_def chooseAdjustment_def getAdaptiveThresholds_def
        minVal_def maxVal_def selectBounds_def js_or_def updateRow_def LEARNING_RATE_def Let_def)

theorem ordering_preserved_witness:
  "distinct (map threshold_type seed_rows)
   \<and> within_bounds seed_rows duplicate \<and> within_bounds seed_rows near_duplicate
   \<and> (\<exists>th' rows'. updateThresholdsFromFeedback (fb_transition ''DUPLICATE'' ''UNIQUE'') (Store seed_rows)
          = Inr (th', Store rows') \<and> th' duplicate = 0.90 \<and> th' near_duplicate = 0.65
            \<and> th' near_duplicate \<le> th' duplicate)"
proof -
  have d: "distinct (map threshold_type seed_rows)"
    by (simp add: seed_rows_def)
  have w: "within_bounds seed_rows duplicate" "within_bounds seed_rows near_duplicate"
    by (simp_all add: within_bounds_def seed_rows_def selectBounds_def minVal_def maxVal_def js_or_def)
  have o: "getAdaptiveThresholds (Store seed_rows) near_duplicate
            \<le> getAdaptiveThresholds (Store seed_rows) duplicate"
    by (simp add: getAdaptiveThresholds_def seed_rows_def)
  have s: "maxVal seed_rows near_duplicate \<le> minVal seed_rows duplicate
           \<or> (chooseAdjustment (fb_transition ''DUPLICATE'' ''UNIQUE'') \<noteq> (Some duplicate, - LEARNING_RATE)
              \<and> chooseAdjustment (fb_transition ''DUPLICATE'' ''UNIQUE'') \<noteq> (Some near_duplicate, LEARNING_RATE))"
    by (simp add: chooseAdjustment_def fb_transition_def LEARNING_RATE_def)
  from ordering_preserved [OF d w o s] obtain th' rows' where
    e: "updateThresholdsFromFeedback (fb_transition ''DUPLICATE'' ''UNIQUE'') (Store seed_rows)
          = Inr (th', Store rows')" and le: "th' near_duplicate \<le> th' duplicate"
    by blast
  have v: "th' duplicate = 0.90 \<and> th' near_duplicate = 0.65"
    using e
    by (auto simp: seed_rows_def fb_transition_def
        updateThresholdsFromFeedback_def chooseAdjustment_def getAdaptiveThresholds_def
        minVal_def maxVal_def selectBounds_def js_or_def updateRow_def LEARNING_RATE_def Let_def)
  show ?thesis using d w e le v by blast
qed

text \<open>
  C2.  A failed read returns the object of the \<open>catch\<close> branch, whose \<open>duplicate\<close> and
  \<open>near_duplicate\<close> are 0.50, whereas an empty table gives 0.60 for both.
\<close>

theorem read_failure_defaults:
  "getAdaptiveThresholds Unavailable duplicate = 0.50
   \<and> getAdaptiveThresholds Unavailable near_duplicate = 0.50
   \<and> getAdaptiveThresholds (Store []) duplicate = 0.60
   \<and> getAdaptiveThresholds (Store []) near_duplicate = 0.60
   \<and> getAdaptiveThresholds Unavailable \<noteq> getAdaptiveThresholds (Store [])"
proof -
  have "getAdaptiveThresholds Unavailable duplicate \<noteq> getAdaptiveThresholds (Store []) duplicate"
    by (simp add: getAdaptiveThresholds_def)
  then have "getAdaptiveThresholds Unavailable \<noteq> getAdaptiveThresholds (Store [])"
    by metis
  then show ?thesis by (simp add: getAdaptiveThresholds_def)
qed

subsection \<open>Lowering the duplicate threshold, in doubles\<close>

lemma is_double_round64: "is_double (round64 x)"
  by (simp add: is_double_def round64_idem)

lemma round64_le_double: "x \<le> v \<Longrightarrow> is_double v \<Longrightarrow> round64 x \<le> v"
  using round64_mono [of x v] by (simp add: is_double_def)

lemma round64_learning_rate: "round64 (- LEARNING_RATE) \<le> 0"
  by (rule round64_nonpos) (simp add: LEARNING_RATE_def)

lemma unique_to_duplicate_adjustment:
  "chooseAdjustment unique_to_duplicate = (Some duplicate, - LEARNING_RATE)"
  by (simp add: chooseAdjustment_def unique_to_duplicate_def fb_transition_def)

text \<open>One \<open>UNIQUE \<rightarrow> DUPLICATE\<close> event on a table whose duplicate row lies within its bounds.\<close>

lemma update64_step:
  assumes d: "distinct (map threshold_type rows)" and wb: "within_bounds64 rows duplicate"
  defines "a \<equiv> getAdaptiveThresholds (Store rows) duplicate"
  defines "b \<equiv> max (round64 (minVal rows duplicate)) (round64 (a + round64 (- LEARNING_RATE)))"
  shows "updateThresholdsFromFeedback64 unique_to_duplicate (Store rows) =
           Inr ((getAdaptiveThresholds (Store rows))(duplicate := b),
                Store (updateRow rows duplicate b))"
    and "b \<le> a" and "round64 (minVal rows duplicate) \<le> b"
    and "distinct (map threshold_type (updateRow rows duplicate b))"
    and "within_bounds64 (updateRow rows duplicate b) duplicate"
    and "getAdaptiveThresholds (Store (updateRow rows duplicate b)) duplicate = b"
proof -
  from wb obtain r where r: "selectBounds rows duplicate = Some r"
    and dbl: "is_double (current_value r)"
    and r1: "round64 (minVal rows duplicate) \<le> current_value r"
    and r2: "current_value r \<le> round64 (maxVal rows duplicate)"
    by (auto simp: within_bounds64_def split: option.splits)
  have g: "a = current_value r"
    using d r by (simp add: a_def read_store)
  have ra: "round64 a = a" using dbl g by (simp add: is_double_def)
  have "a + round64 (- LEARNING_RATE) \<le> a" using round64_learning_rate by simp
  then have s: "round64 (a + round64 (- LEARNING_RATE)) \<le> a"
    using dbl g by (intro round64_le_double) simp_all
  then have m: "min (round64 (maxVal rows duplicate)) (round64 (a + round64 (- LEARNING_RATE)))
                  = round64 (a + round64 (- LEARNING_RATE))"
    using r2 g by simp
  show "updateThresholdsFromFeedback64 unique_to_duplicate (Store rows) =
           Inr ((getAdaptiveThresholds (Store rows))(duplicate := b),
                Store (updateRow rows duplicate b))"
    using m ra
    by (simp add: updateThresholdsFromFeedback64_def unique_to_duplicate_adjustment Let_def
          a_def [symmetric] b_def)
  show le: "b \<le> a" using s r1 g by (simp add: b_def)
  show lo: "round64 (minVal rows duplicate) \<le> b" by (simp add: b_def)
  show "distinct (map threshold_type (updateRow rows duplicate b))"
    using d by (simp add: rows_types_updateRow)
  have "is_double b"
    by (simp add: b_def max_def is_double_round64)
  moreover have "b \<le> round64 (maxVal rows duplicate)" using le r2 g by simp
  ultimately show "within_bounds64 (updateRow rows duplicate b) duplicate"
    using r lo by (simp add: within_bounds64_def selectBounds_updateRow minVal_updateRow
                      maxVal_updateRow)
  show "getAdaptiveThresholds (Store (updateRow rows duplicate b)) duplicate = b"
    using d r by (simp add: read_updateRow)
qed

lemma duplicateAfter64_0:
  "duplicateAfter64 0 env = Some (getAdaptiveThresholds env duplicate)"
  by (simp add: duplicateAfter64_def)

lemma duplicateAfter64_Suc:
  assumes "distinct (map threshold_type rows)" "within_bounds64 rows duplicate"
  shows "duplicateAfter64 (Suc n) (Store rows) =
           duplicateAfter64 n (Store (updateRow rows duplicate
              (max (round64 (minVal rows duplicate))
                   (round64 (getAdaptiveThresholds (Store rows) duplicate
                             + round64 (- LEARNING_RATE))))))"
  by (simp add: duplicateAfter64_def update64_step(1) [OF assms])

text \<open>
  C7 (as amended).  In a table with one row per kind whose duplicate row holds a double within
  the bounds the update uses (\<open>min_value\<close>, or 0.3 when it is NULL or 0; \<open>max_value\<close>, or 0.95
  when it is NULL or 0), every \<open>UNIQUE \<rightarrow> DUPLICATE\<close> event returns.  If \<open>a\<close> is the duplicate
  threshold after \<open>n\<close> events, the next event stores the larger of the lower bound and the
  double result of \<open>a + (- 0.05)\<close>; this value is not larger than \<open>a\<close> and not below the lower
  bound, and \<open>a\<close> is not larger than the value the run started from.
\<close>

theorem feedback_lowers_duplicate:
  assumes d: "distinct (map threshold_type rows)" and wb: "within_bounds64 rows duplicate"
  shows "\<exists>a b. duplicateAfter64 n (Store rows) = Some a
           \<and> duplicateAfter64 (Suc n) (Store rows) = Some b
           \<and> b = max (round64 (minVal rows duplicate)) (round64 (a + round64 (- LEARNING_RATE)))
           \<and> b \<le> a \<and> round64 (minVal rows duplicate) \<le> b
           \<and> a \<le> getAdaptiveThresholds (Store rows) duplicate"
  using d wb
proof (induction n arbitrary: rows)
  case 0
  show ?case
    using update64_step(2,3,6) [OF 0]
    by (simp add: duplicateAfter64_Suc [OF 0] duplicateAfter64_0)
next
  case (Suc n)
  define b0 where "b0 = max (round64 (minVal rows duplicate))
     (round64 (getAdaptiveThresholds (Store rows) duplicate + round64 (- LEARNING_RATE)))"
  define rows1 where "rows1 = updateRow rows duplicate b0"
  have d1: "distinct (map threshold_type rows1)"
    and w1: "within_bounds64 rows1 duplicate"
    and g1: "getAdaptiveThresholds (Store rows1) duplicate = b0"
    and le: "b0 \<le> getAdaptiveThresholds (Store rows) duplicate"
    using update64_step(2,4,5,6) [OF Suc.prems] by (simp_all add: rows1_def b0_def)
  have s1: "duplicateAfter64 (Suc n) (Store rows) = duplicateAfter64 n (Store rows1)"
    by (simp add: duplicateAfter64_Suc [OF Suc.prems] rows1_def b0_def)
  have s2: "duplicateAfter64 (Suc (Suc n)) (Store rows) = duplicateAfter64 (Suc n) (Store rows1)"
    by (simp add: duplicateAfter64_Suc [OF Suc.prems, of "Suc n"] rows1_def b0_def)
  have m: "minVal rows1 duplicate = minVal rows duplicate"
    by (simp add: rows1_def minVal_updateRow)
  from Suc.IH [OF d1 w1] show ?case
    unfolding s1 s2 m g1 using le by auto
qed


text \<open>The doubles nearest to the decimal literals involved, and the two subtractions.\<close>

lemma double_0_85: "round64 0.85 = 7656119366529843 / 2 ^ 53"
  using round64_eval [of "- 1" "0.85" 7656119366529843] by simp

lemma double_0_75: "round64 0.75 = 0.75"
  using round64_eval [of "- 1" "0.75" 6755399441055744] by simp

lemma double_0_95: "round64 0.95 = 8556839292003942 / 2 ^ 53"
  using round64_eval [of "- 1" "0.95" 8556839292003942] by simp

lemma double_0_80: "round64 0.80 = 7205759403792794 / 2 ^ 53"
  using round64_eval [of "- 1" "0.80" 7205759403792794] by simp

lemma double_0_05: "round64 0.05 = 7205759403792794 / 2 ^ 57"
  using round64_eval [of "- 5" "0.05" 7205759403792794] by simp

lemma double_learning_rate: "round64 (- LEARNING_RATE) = - (7205759403792794 / 2 ^ 57)"
  unfolding LEARNING_RATE_def round64_minus double_0_05 by (rule refl)

lemma first_subtraction:
  "round64 (7656119366529843 / 2 ^ 53 + - (7205759403792794 / 2 ^ 57)) = 7205759403792793 / 2 ^ 53"
  using round64_eval [of "- 1" "7656119366529843 / 2 ^ 53 + - (7205759403792794 / 2 ^ 57)"
      7205759403792793] by simp

lemma second_subtraction:
  "round64 (7205759403792793 / 2 ^ 53 + - (7205759403792794 / 2 ^ 57)) = 6755399441055743 / 2 ^ 53"
  using round64_eval [of "- 1" "7205759403792793 / 2 ^ 53 + - (7205759403792794 / 2 ^ 57)"
      6755399441055743] by simp

text \<open>The same facts with the literals in the form the simplifier gives them.\<close>

lemma double_0_85_normal: "round64 (17 / 20) = 7656119366529843 / 2 ^ 53"
  using double_0_85 by simp

lemma double_0_75_normal: "round64 (3 / 4) = 3 / 4"
  using double_0_75 by simp

lemma double_0_95_normal: "round64 (19 / 20) = 8556839292003942 / 2 ^ 53"
  using double_0_95 by simp

lemma double_0_80_normal: "round64 (4 / 5) = 7205759403792794 / 2 ^ 53"
  using double_0_80 by simp

lemma double_0_05_normal: "round64 (1 / 20) = 7205759403792794 / 2 ^ 57"
  using double_0_05 by simp

lemma seed64_distinct: "distinct (map threshold_type seed_rows64)"
  by (simp add: seed_rows64_def seed_rows_def stored64_def)

lemma seed64_read: "getAdaptiveThresholds (Store seed_rows64) duplicate = 7656119366529843 / 2 ^ 53"
  by (simp add: getAdaptiveThresholds_def seed_rows64_def seed_rows_def stored64_def
        double_0_85_normal)

lemma seed64_minVal: "round64 (minVal seed_rows64 duplicate) = 0.75"
  by (simp add: minVal_def selectBounds_def seed_rows64_def seed_rows_def stored64_def js_or_def
        double_0_75_normal)

lemma seed64_maxVal: "round64 (maxVal seed_rows64 duplicate) = round64 0.95"
proof -
  have "round64 0.75 \<le> round64 0.95" by (rule round64_mono) simp
  then have "round64 (19 / 20) \<noteq> 0" by (simp add: double_0_75_normal)
  then show ?thesis
    by (simp add: maxVal_def selectBounds_def seed_rows64_def seed_rows_def stored64_def js_or_def
          round64_idem)
qed

lemma seed64_within: "within_bounds64 seed_rows64 duplicate"
proof -
  have s: "selectBounds seed_rows64 duplicate = Some (stored64 (hd seed_rows))"
    by (simp add: selectBounds_def seed_rows64_def seed_rows_def stored64_def)
  have c: "current_value (stored64 (hd seed_rows)) = round64 0.85"
    by (simp add: seed_rows_def stored64_def)
  have "round64 0.75 \<le> round64 0.85" "round64 0.85 \<le> round64 0.95"
    by (rule round64_mono, simp)+
  then show ?thesis
    unfolding within_bounds64_def s seed64_maxVal seed64_minVal
    by (simp add: c is_double_round64 double_0_75_normal)
qed

lemma duplicateAfter64_one:
  assumes "distinct (map threshold_type rows)" "within_bounds64 rows duplicate"
  shows "duplicateAfter64 (Suc 0) (Store rows) =
           Some (max (round64 (minVal rows duplicate))
                     (round64 (getAdaptiveThresholds (Store rows) duplicate
                               + round64 (- LEARNING_RATE))))"
  by (simp add: duplicateAfter64_Suc [OF assms] duplicateAfter64_0 update64_step(6) [OF assms])

lemma seed64_after_one:
  "duplicateAfter64 (Suc 0) (Store seed_rows64) = Some (7205759403792793 / 2 ^ 53)"
  using duplicateAfter64_one [OF seed64_distinct seed64_within]
  unfolding seed64_read seed64_minVal double_learning_rate first_subtraction
  by simp

theorem feedback_lowers_duplicate_witness:
  "distinct (map threshold_type seed_rows64) \<and> within_bounds64 seed_rows64 duplicate
   \<and> duplicateAfter64 (Suc 0) (Store seed_rows64) = Some (7205759403792793 / 2 ^ 53)
   \<and> duplicateAfter64 (Suc (Suc 0)) (Store seed_rows64) = Some 0.75
   \<and> (0.75 :: real) \<le> 7205759403792793 / 2 ^ 53"
proof -
  from feedback_lowers_duplicate [OF seed64_distinct seed64_within, of "Suc 0"]
  have "duplicateAfter64 (Suc (Suc 0)) (Store seed_rows64) = Some 0.75"
    unfolding seed64_after_one seed64_minVal
    by (clarsimp simp only: option.inject double_learning_rate second_subtraction) simp
  then show ?thesis
    using seed64_distinct seed64_within seed64_after_one by simp
qed

text \<open>
  C7 as stated fails from the seeded table: the first \<open>UNIQUE \<rightarrow> DUPLICATE\<close> event takes the
  duplicate threshold from the double 0.85 to 7205759403792793 / 2^53, which prints as
  0.7999999999999999.  The decrease is neither 0.05 nor the double 0.05, and the new value is
  not the double 0.80.
\<close>

theorem feedback_step_counterexample:
  "duplicateAfter64 0 (Store seed_rows64) = Some (round64 0.85)
   \<and> duplicateAfter64 1 (Store seed_rows64) = Some (7205759403792793 / 2 ^ 53)
   \<and> round64 0.85 - 7205759403792793 / 2 ^ 53 \<noteq> 0.05
   \<and> round64 0.85 - 7205759403792793 / 2 ^ 53 \<noteq> round64 0.05
   \<and> 7205759403792793 / 2 ^ 53 \<noteq> round64 0.80"
  using seed64_after_one
  by (simp add: duplicateAfter64_0 seed64_read double_0_85_normal double_0_05_normal
        double_0_80_normal)

section \<open>Threshold classifier\<close>

text \<open>
  C10.  When the threshold object has \<open>near_duplicate\<close> equal to \<open>duplicate\<close>, the classifier
  answers DUPLICATE for a score at or above the threshold and UNIQUE below it, and never
  NEAR_DUPLICATE.  Both default objects of \<open>getAdaptiveThresholds\<close> (empty table, failed read)
  are of this kind.
\<close>

theorem classify_equal_thresholds:
  "th near_duplicate = th duplicate \<Longrightarrow>
     classifyWithAdaptiveThresholds s th = (if s \<ge> th duplicate then DUPLICATE else UNIQUE)
     \<and> classifyWithAdaptiveThresholds s th \<noteq> NEAR_DUPLICATE"
  by (simp add: classifyWithAdaptiveThresholds_def)

theorem classify_equal_thresholds_witness:
  "getAdaptiveThresholds (Store []) near_duplicate = getAdaptiveThresholds (Store []) duplicate
   \<and> getAdaptiveThresholds Unavailable near_duplicate = getAdaptiveThresholds Unavailable duplicate
   \<and> classifyWithAdaptiveThresholds 0.6 (getAdaptiveThresholds (Store [])) = DUPLICATE
   \<and> classifyWithAdaptiveThresholds 0.59 (getAdaptiveThresholds (Store [])) = UNIQUE
   \<and> classifyWithAdaptiveThresholds 0.55 (getAdaptiveThresholds Unavailable) = DUPLICATE
   \<and> classifyWithAdaptiveThresholds 0.55 (getAdaptiveThresholds Unavailable) \<noteq> NEAR_DUPLICATE"
proof -
  have a: "getAdaptiveThresholds (Store []) near_duplicate = getAdaptiveThresholds (Store []) duplicate"
    by (simp add: getAdaptiveThresholds_def)
  have b: "getAdaptiveThresholds Unavailable near_duplicate = getAdaptiveThresholds Unavailable duplicate"
    by (simp add: getAdaptiveThresholds_def)
  show ?thesis
    using classify_equal_thresholds [OF a, of "0.6"] classify_equal_thresholds [OF a, of "0.59"]
      classify_equal_thresholds [OF b, of "0.55"] a b
    by (simp add: getAdaptiveThresholds_def)
qed

section \<open>Cosine similarity\<close>

lemma cosine_loop:
  "foldl (\<lambda>(dotProduct, mag1, mag2) (a, b).
             (dotProduct + a * b, mag1 + a * a, mag2 + b * b)) (d, m1, m2) ps
   = (d + dot ps, m1 + sq1 ps, m2 + sq2 ps)"
  by (induction ps arbitrary: d m1 m2) (auto simp: dot_def sq1_def sq2_def)

lemma cosineSimilarity_eq:
  "length vec1 = length vec2 \<Longrightarrow>
   cosineSimilarity vec1 vec2 =
     Inr (if sqrt (sq1 (zip vec1 vec2)) = 0 \<or> sqrt (sq2 (zip vec1 vec2)) = 0 then 0
          else dot (zip vec1 vec2) / (sqrt (sq1 (zip vec1 vec2)) * sqrt (sq2 (zip vec1 vec2))))"
  by (simp add: cosineSimilarity_def cosine_loop)

lemma collect_Inr:
  "collect xs = Inr vs \<Longrightarrow> length vs = length xs \<and> (\<forall>j<length xs. xs ! j = Inr (vs ! j))"
proof (induction xs arbitrary: vs)
  case Nil
  then show ?case by simp
next
  case (Cons x xs)
  then show ?case
    by (auto split: sum.splits simp: nth_Cons split: nat.splits)
qed

lemma collect_total:
  "(\<And>x. x \<in> set xs \<Longrightarrow> \<exists>v. x = Inr v) \<Longrightarrow> \<exists>vs. collect xs = Inr vs"
proof (induction xs)
  case Nil
  then show ?case by simp
next
  case (Cons x xs)
  then obtain v vs where "x = Inr v" "collect xs = Inr vs" by (metis list.set_intros)
  then show ?case by simp
qed

lemma matrixRow_diag:
  assumes "matrixRow gs m i = Inr row" "i < length gs"
  shows "length row = length gs \<and> row ! i = 1"
proof -
  from collect_Inr [OF assms(1) [unfolded matrixRow_def]] assms(2)
  show ?thesis by auto
qed

lemma matrixRows_diag:
  assumes "matrixRows gs m0 [length m0..<length gs] = Inr m"
    and "\<forall>i<length m0. m0 ! i ! i = 1"
  shows "length m = max (length m0) (length gs) \<and> (\<forall>i<length m. m ! i ! i = 1)"
  using assms
proof (induction "length gs - length m0" arbitrary: m0)
  case 0
  then show ?case by simp
next
  case (Suc d)
  then have lt: "length m0 < length gs" by simp
  then have u: "[length m0..<length gs] = length m0 # [Suc (length m0)..<length gs]"
    by (simp add: upt_conv_Cons)
  from Suc.prems(1) obtain row where row: "matrixRow gs m0 (length m0) = Inr row"
    and rest: "matrixRows gs (m0 @ [row]) [length (m0 @ [row])..<length gs] = Inr m"
    unfolding u by (auto split: sum.splits)
  have d: "row ! length m0 = 1" using matrixRow_diag [OF row lt] by simp
  have inv: "\<forall>i<length (m0 @ [row]). (m0 @ [row]) ! i ! i = 1"
    using Suc.prems(2) d by (auto simp: nth_append less_Suc_eq)
  have "d = length gs - length (m0 @ [row])" using Suc.hyps(2) by simp
  from Suc.hyps(1) [OF this rest inv] lt show ?case by (simp add: max_def)
qed

lemma matrix_diagonal:
  "computeSimilarityMatrix gs = Inr m \<Longrightarrow> i < length gs \<Longrightarrow> m ! i ! i = 1"
  using matrixRows_diag [of gs "[]" m] by (simp add: computeSimilarityMatrix_def)

subsection \<open>Self-similarity in doubles\<close>

lemma double_4: "round64 4 = 4"
  using round64_eval [of 2 4 "2 ^ 52"] by simp

lemma double_9: "round64 9 = 9"
  using round64_eval [of 3 9 "9 * 2 ^ 49"] by simp

lemma double_13: "round64 13 = 13"
  using round64_eval [of 3 13 "13 * 2 ^ 49"] by simp

lemma sqrt13_bounds:
  "8118979690322419 / 2 ^ 51 - 1 / 2 ^ 52 < sqrt 13"
  "sqrt 13 < 8118979690322419 / 2 ^ 51 + 1 / 2 ^ 52"
  by (rule real_less_rsqrt, simp add: power2_eq_square)
     (rule real_less_lsqrt, simp_all add: power2_eq_square)

lemma double_sqrt_13: "round64 (sqrt 13) = 8118979690322419 / 2 ^ 51"
proof -
  have a: "2 powi 1 \<le> \<bar>sqrt 13\<bar>"
    using real_le_rsqrt [of 2 13] by simp
  have "sqrt 13 < 4" by (rule real_less_lsqrt) simp_all
  then have b: "\<bar>sqrt 13\<bar> < 2 powi (1 + 1)" by simp
  have "sqrt 13 * 2 ^ 51 - 8118979690322419 < 1 / 2"
    using sqrt13_bounds(2) by (simp add: field_simps)
  moreover have "- (1 / 2) < sqrt 13 * 2 ^ 51 - 8118979690322419"
    using sqrt13_bounds(1) by (simp add: field_simps)
  ultimately have "\<bar>sqrt 13 * 2 ^ 51 - 8118979690322419\<bar> < 1 / 2"
    by (simp only: abs_less_iff) simp
  then have c: "\<bar>sqrt 13 / 2 powi (1 - 52) - of_int 8118979690322419\<bar> < 1 / 2"
    by simp
  show ?thesis using round64_eval [OF a b _ c] by simp
qed

lemma double_product: "round64 (8118979690322419 / 2 ^ 51 * (8118979690322419 / 2 ^ 51)) = 7318349394477055 / 2 ^ 49"
  using round64_eval [of 3 "8118979690322419 / 2 ^ 51 * (8118979690322419 / 2 ^ 51)" 7318349394477055]
  by simp

lemma double_quotient: "round64 (13 / (7318349394477055 / 2 ^ 49)) = 4503599627370497 / 2 ^ 52"
  using round64_eval [of 0 "13 / (7318349394477055 / 2 ^ 49)" 4503599627370497]
  by simp

lemma cosineLoop64_example: "cosineLoop64 (0, 0, 0) (zip [2, 3] [2, 3]) = Some (13, 13, 13)"
  by (simp add: Let_def finite64_def double_4 double_9 double_13)

text \<open>A component of size \<open>2^600\<close>: its square is no finite double, so the sums become infinite
  (JavaScript then returns NaN for the quotient of two infinities).\<close>

lemma double_square_2_600: "round64 (2 ^ 600 * 2 ^ 600) = 2 ^ 1200"
  using round64_eval [of 1200 "2 ^ 600 * 2 ^ 600" "2 ^ 52"] by simp

lemma cosine_overflow_example: "cosineSimilarity64 [2 ^ 600] [2 ^ 600] = Inr None"
proof -
  have "cosineLoop64 (0, 0, 0) (zip [2 ^ 600] [2 ^ 600]) = None"
    apply (simp only: zip_Cons_Cons zip_Nil cosineLoop64.simps Let_def double_square_2_600)
    apply (simp add: finite64_def)
    done
  then show ?thesis by (simp add: cosineSimilarity64_def)
qed

text \<open>
  C9.  The similarity of the vector \<open>[2, 3]\<close> with itself is \<open>1 + 2^-52\<close>, which prints as
  1.0000000000000002: the sums are 13, the rounded square root of 13 squares to a double just
  below 13, and 13 divided by that rounds to the double above 1.  The value lies outside the
  range "between -1 and 1" that the comment of \<open>cosineSimilarity\<close> promises.
\<close>

theorem cosine_self_similarity_above_one: "cosineSimilarity64 [2, 3] [2, 3] = Inr (Some (1 + 1 / 2 ^ 52))"
  unfolding cosineSimilarity64_def cosineLoop64_example
  apply (simp only: Let_def option.case prod.case double_sqrt_13 double_product double_quotient)
  apply (simp add: finite64_def)
  done

section \<open>Similarity kernel\<close>





























section \<open>Embedding acquisition\<close>

text \<open>The batch path throws once the custom server and the three attempts have all failed.\<close>

lemma batch_all_fail:
  assumes "texts \<noteq> []" "customFails texts custom"
    "attemptFails texts (hf 1)" "attemptFails texts (hf 2)" "attemptFails texts (hf 3)"
  shows "generateBatchEmbeddings texts custom hf
           = Inl (EmbeddingUnavailable ''Failed to generate embeddings - check API token'')"
proof -
  have a: "hfAttempts texts hf k (Suc n) = hfAttempts texts hf (Suc k) n" if "attemptFails texts (hf k)" for k n
    using that by (auto simp: attemptFails_def split: http.splits option.splits bool.splits)
  have f1: "attemptFails texts (hf (Suc 0))" using assms(3) by simp
  have f2: "attemptFails texts (hf (Suc (Suc 0)))" using assms(4) by (simp add: numeral_2_eq_2)
  have f3: "attemptFails texts (hf (Suc (Suc (Suc 0))))" using assms(5) by (simp add: numeral_3_eq_3)
  have "hfAttempts texts hf (Suc 0) (Suc (Suc (Suc 0)))
          = Inl (EmbeddingUnavailable ''Failed to generate embeddings - check API token'')"
    by (simp only: a [OF f1] a [OF f2] a [OF f3] hfAttempts.simps(1))
  then have "hfAttempts texts hf 1 MAX_RETRIES
          = Inl (EmbeddingUnavailable ''Failed to generate embeddings - check API token'')"
    by (simp only: MAX_RETRIES_def numeral_3_eq_3 One_nat_def)
  with assms(1,2) show ?thesis
    by (auto simp: generateBatchEmbeddings_def customFails_def
             split: option.splits http.splits bool.splits)
qed

lemma single_fallback:
  "generateEmbedding text FetchFails = JArr (map JNum (generateFallbackEmbedding text))"
  "generateEmbedding text (Response False body) = JArr (map JNum (generateFallbackEmbedding text))"
  "generateEmbedding text (Response True None) = JArr (map JNum (generateFallbackEmbedding text))"
  by (simp_all add: generateEmbedding_def)

text \<open>
  C1.  The single-text path does not signal a failure: when the request is rejected, the status
  is not ok or the body cannot be parsed, \<open>generateEmbedding\<close> returns the locally generated hash
  vector of the text in place of an embedding.
\<close>

theorem single_text_synthetic_vector:
  "generateEmbedding text FetchFails = JArr (map JNum (generateFallbackEmbedding text))
   \<and> generateEmbedding text (Response False body) = JArr (map JNum (generateFallbackEmbedding text))
   \<and> generateEmbedding text (Response True None) = JArr (map JNum (generateFallbackEmbedding text))
   \<and> generateEmbedding text (Response True (Some JOther))
       = JArr (map JNum (generateFallbackEmbedding text))
   \<and> processGrievanceEmbedding text (Response False body)
       = JArr (map JNum (generateFallbackEmbedding (preprocessText text)))"
  by (simp add: generateEmbedding_def processGrievanceEmbedding_def)

section \<open>Cluster materializer\<close>

lemma addResult_skip: "\<not> clusterable r \<Longrightarrow> addResult cl r = cl"
  by (auto simp: addResult_def clusterable_def split: option.splits match_id.splits)

lemma addResult_key:
  "clusterable r \<Longrightarrow>
   addResult cl r =
     map (\<lambda>(k, c). if k = clusterKey r
                     then (k, c\<lparr>members := members c @ [id_num r], scores := scores c @ [score r]\<rparr>)
                     else (k, c))
         (if clusterKey r \<in> fst ` set cl then cl
          else cl @ [(clusterKey r, \<lparr>ctype = status r, primaryId = clusterKey r,
                                    members = [], scores = []\<rparr>)])"
  by (auto simp: addResult_def clusterable_def clusterKey_def falsy_id_def Let_def
           split: option.splits match_id.splits)

lemma map_fst_upd:
  "map fst (map (\<lambda>(k, c). if k = key then (k, f c) else (k, c)) cl) = map fst cl"
  by (induction cl) auto

lemma map_of_upd:
  "map_of (map (\<lambda>(k, c). if k = key then (k, f c) else (k, c)) cl) k'
     = (if k' = key then map_option f (map_of cl k') else map_of cl k')"
  by (induction cl) auto

lemma map_of_snoc_new:
  "key \<notin> fst ` set cl \<Longrightarrow> map_of (cl @ [(key, c)]) k' = (if k' = key then Some c else map_of cl k')"
  by (induction cl) (auto simp: image_iff)

lemma map_of_absent: "key \<notin> fst ` set cl \<Longrightarrow> map_of cl key = None"
  by (simp add: map_of_eq_None_iff)

lemma addResult_keys:
  "map fst (addResult cl r) =
     (if clusterable r \<and> clusterKey r \<notin> fst ` set cl then map fst cl @ [clusterKey r] else map fst cl)"
  by (cases "clusterable r") (simp_all add: addResult_skip addResult_key map_fst_upd del: map_map)

lemma addResult_distinct: "distinct (map fst cl) \<Longrightarrow> distinct (map fst (addResult cl r))"
  by (auto simp: addResult_keys)

lemma addResult_members:
  "membersOf (addResult cl r) k
     = membersOf cl k @ (if clusterable r \<and> clusterKey r = k then [id_num r] else [])"
proof (cases "clusterable r")
  case False
  then show ?thesis by (simp add: addResult_skip)
next
  case True
  show ?thesis
  proof (cases "clusterKey r \<in> fst ` set cl")
    case in_cl: True
    then obtain c where "map_of cl (clusterKey r) = Some c"
      by (metis map_of_eq_None_iff not_Some_eq)
    with True in_cl show ?thesis
      by (auto simp: membersOf_def addResult_key map_of_upd)
  next
    case new: False
    with True show ?thesis
      by (auto simp: membersOf_def addResult_key map_of_upd map_of_snoc_new map_of_absent
               split: option.splits)
  qed
qed

lemma addResult_scores:
  "scoresOf (addResult cl r) k
     = scoresOf cl k @ (if clusterable r \<and> clusterKey r = k then [score r] else [])"
proof (cases "clusterable r")
  case False
  then show ?thesis by (simp add: addResult_skip)
next
  case True
  show ?thesis
  proof (cases "clusterKey r \<in> fst ` set cl")
    case in_cl: True
    then obtain c where "map_of cl (clusterKey r) = Some c"
      by (metis map_of_eq_None_iff not_Some_eq)
    with True in_cl show ?thesis
      by (auto simp: scoresOf_def addResult_key map_of_upd)
  next
    case new: False
    with True show ?thesis
      by (auto simp: scoresOf_def addResult_key map_of_upd map_of_snoc_new map_of_absent
               split: option.splits)
  qed
qed

lemma fold_addResult:
  "distinct (map fst cl) \<Longrightarrow>
   distinct (map fst (foldl addResult cl rs))
   \<and> membersOf (foldl addResult cl rs) k
       = membersOf cl k @ map id_num (filter (\<lambda>r. clusterable r \<and> clusterKey r = k) rs)
   \<and> scoresOf (foldl addResult cl rs) k
       = scoresOf cl k @ map score (filter (\<lambda>r. clusterable r \<and> clusterKey r = k) rs)"
proof (induction rs arbitrary: cl)
  case Nil
  then show ?case by simp
next
  case (Cons r rs)
  from Cons.IH [OF addResult_distinct [OF Cons.prems]]
  show ?case by (simp add: addResult_members addResult_scores)
qed

text \<open>
  C5 (as amended).  Every cluster row has at least one member and \<open>member_count\<close> counts its
  member rows; its members are exactly the duplicate and near-duplicate results, not matched to a
  \<open>batch_\<close> placeholder, whose matched id is the primary, or whose matched id is missing (or 0) and
  whose own id is the primary.  The primary is among its own members exactly when such a result
  with the primary's id has no matched id or is matched to itself.
\<close>

theorem cluster_members_characterised:
  assumes "row \<in> set (formDuplicateClusters results)"
  shows "member_count row \<ge> 1
     \<and> member_count row = length (cluster_members row)
     \<and> map fst (cluster_members row)
         = map id_num (filter (\<lambda>r. clusterable r \<and> clusterKey r = primary_grievance_id row) results)
     \<and> (primary_grievance_id row \<in> fst ` set (cluster_members row)
          \<longleftrightarrow> (\<exists>r\<in>set results. clusterable r \<and> id_num r = primary_grievance_id row
                \<and> (falsy_id (matchedId r) \<or> matchedId r = Some (Persisted (id_num r)))))"
proof -
  let ?cl = "foldl addResult [] results"
  from assms obtain k c where kc: "(k, c) \<in> set ?cl" and ne: "length (members c) > 0"
    and row: "row = \<lparr>cluster_type = ctype c, primary_grievance_id = k,
                     member_count = length (members c),
                     avg_similarity_score = sum_list (scores c) / real (length (scores c)),
                     cluster_members = zip (members c) (scores c)\<rparr>"
    by (auto simp: formDuplicateClusters_def Let_def)
  have f: "distinct (map fst ?cl)"
    "membersOf ?cl k = map id_num (filter (\<lambda>r. clusterable r \<and> clusterKey r = k) results)"
    "scoresOf ?cl k = map score (filter (\<lambda>r. clusterable r \<and> clusterKey r = k) results)"
    using fold_addResult [of "[]" results k] by (simp_all add: membersOf_def scoresOf_def)
  from f(1) kc have m: "map_of ?cl k = Some c" by simp
  have mem: "members c = map id_num (filter (\<lambda>r. clusterable r \<and> clusterKey r = k) results)"
    using f(2) m by (simp add: membersOf_def)
  have sc: "scores c = map score (filter (\<lambda>r. clusterable r \<and> clusterKey r = k) results)"
    using f(3) m by (simp add: scoresOf_def)
  have len: "length (scores c) = length (members c)" by (simp add: mem sc)
  have fstz: "map fst (zip (members c) (scores c)) = members c"
    using len by (simp add: map_fst_zip)
  have key_self: "clusterKey r = id_num r \<longleftrightarrow>
                  (falsy_id (matchedId r) \<or> matchedId r = Some (Persisted (id_num r)))"
    if "clusterable r" for r
    using that by (auto simp: clusterKey_def falsy_id_def clusterable_def
                        split: option.splits match_id.splits)
  have "k \<in> set (members c) \<longleftrightarrow>
          (\<exists>r\<in>set results. clusterable r \<and> id_num r = k
                \<and> (falsy_id (matchedId r) \<or> matchedId r = Some (Persisted (id_num r))))"
    unfolding mem using key_self by auto
  moreover have "fst ` set (zip (members c) (scores c)) = set (members c)"
    using fstz by (metis set_map)
  moreover have "1 \<le> length (members c)" using ne by (cases "members c") simp_all
  ultimately show ?thesis
    using len fstz mem by (simp add: row)
qed


theorem cluster_members_characterised_witness:
  "(\<exists>row \<in> set (formDuplicateClusters [matched_result]).
      primary_grievance_id row = 3 \<and> map fst (cluster_members row) = [10]
      \<and> member_count row = 1 \<and> primary_grievance_id row \<notin> fst ` set (cluster_members row))"
proof -
  have e: "formDuplicateClusters [matched_result] =
        [\<lparr>cluster_type = DUPLICATE, primary_grievance_id = 3, member_count = 1,
          avg_similarity_score = 0.9, cluster_members = [(10, 0.9)]\<rparr>]"
    by (simp add: formDuplicateClusters_def addResult_def matched_result_def falsy_id_def Let_def)
  then have m: "\<lparr>cluster_type = DUPLICATE, primary_grievance_id = 3, member_count = 1,
          avg_similarity_score = 0.9, cluster_members = [(10, 0.9)]\<rparr>
        \<in> set (formDuplicateClusters [matched_result])" by simp
  from cluster_members_characterised [OF m] show ?thesis
    unfolding e by (simp add: matched_result_def clusterable_def clusterKey_def falsy_id_def)
qed

text \<open>
  C5 as stated fails for a grievance that is a duplicate within its own PDF: it is saved without a
  matched id, so it becomes the primary of a cluster whose only member is itself.
\<close>

theorem cluster_primary_counterexample:
  "formDuplicateClusters (saveGrievancesToDB [first_complaint, local_duplicate] 6) =
     [\<lparr>cluster_type = DUPLICATE, primary_grievance_id = 7, member_count = 1,
       avg_similarity_score = 0.9, cluster_members = [(7, 0.9)]\<rparr>]"
  by (simp add: formDuplicateClusters_def addResult_def saveGrievancesToDB_def falsy_id_def
        first_complaint_def local_duplicate_def js_or_def Let_def upt_rec)

section \<open>DBSCAN pass\<close>

lemma upgradeMember_fold:
  assumes "distinct xs" "\<forall>i\<in>set xs. i < length gs"
  shows "length (foldl (upgradeMember p) gs xs) = length gs
       \<and> (\<forall>j. foldl (upgradeMember p) gs xs ! j
               = (if j \<in> set xs \<and> finalStatus (gs ! j) = UNIQUE then upgraded p (gs ! j) else gs ! j))"
  using assms
proof (induction xs arbitrary: gs)
  case Nil
  then show ?case by simp
next
  case (Cons x xs)
  let ?g1 = "upgradeMember p gs x"
  have l1: "length ?g1 = length gs" by (simp add: upgradeMember_def)
  have x: "x < length gs" "x \<notin> set xs" using Cons.prems by auto
  have n1: "?g1 ! j = (if j = x \<and> finalStatus (gs ! j) = UNIQUE then upgraded p (gs ! j) else gs ! j)" for j
    using x(1) by (auto simp: upgradeMember_def upgraded_def nth_list_update)
  have "distinct xs" "\<forall>i\<in>set xs. i < length ?g1" using Cons.prems l1 by auto
  from Cons.IH [OF this] l1 n1 x(2) show ?case by auto
qed

lemma sortByPage_props:
  "set (sortByPage gs c) = set c" "distinct (sortByPage gs c) = distinct c"
  "length (sortByPage gs c) = length c"
  "sorted (map (\<lambda>a. pageNumber (gs ! a)) (sortByPage gs c))"
  by (simp_all add: sortByPage_def)

lemma markCluster_nth:
  assumes "distinct c" "\<forall>i\<in>set c. i < length gs"
  shows "length (markCluster gs c) = length gs
       \<and> (\<forall>j. markCluster gs c ! j
               = (if length c \<ge> 2 \<and> j \<in> set (tl (sortByPage gs c)) \<and> finalStatus (gs ! j) = UNIQUE
                  then upgraded (hd (sortByPage gs c)) (gs ! j) else gs ! j))"
proof (cases "length c \<ge> 2")
  case False
  then show ?thesis by (simp add: markCluster_def)
next
  case True
  have d: "distinct (tl (sortByPage gs c))"
    using assms(1) by (simp add: distinct_tl sortByPage_props)
  have b: "\<forall>i\<in>set (tl (sortByPage gs c)). i < length gs"
    using assms(2) sortByPage_props(1) [of gs c]
    by (metis list.set_sel(2) tl_Nil)
  from upgradeMember_fold [OF d b] True show ?thesis
    by (simp add: markCluster_def Let_def)
qed


lemma upgraded_fields [simp]:
  "pageNumber (upgraded p g) = pageNumber g" "globalMatchId (upgraded p g) = globalMatchId g"
  "finalStatus (upgraded p g) = NEAR_DUPLICATE" "clusteredWith (upgraded p g) = Some p"
  "globalScore (upgraded p g) = globalScore g" "localScore (upgraded p g) = localScore g"
  by (simp_all add: upgraded_def)

lemma markCluster_page:
  assumes "distinct c" "\<forall>i\<in>set c. i < length gs"
  shows "sortByPage (markCluster gs c) c' = sortByPage gs c'"
proof -
  have "(\<lambda>a. pageNumber (markCluster gs c ! a)) = (\<lambda>a. pageNumber (gs ! a))"
    using markCluster_nth [OF assms] by (auto simp: fun_eq_iff)
  then show ?thesis by (simp add: sortByPage_def)
qed

lemma tl_sort_subset: "j \<in> set (tl (sortByPage gs c)) \<Longrightarrow> j \<in> set c"
  using sortByPage_props(1) [of gs c] by (metis list.set_sel(2) tl_Nil)

lemma markClusters_nth:
  assumes "distinct (concat cs)" "\<forall>c\<in>set cs. \<forall>i\<in>set c. i < length gs"
  shows "length (foldl markCluster gs cs) = length gs
    \<and> (\<forall>c j. c \<in> set cs \<longrightarrow> length c \<ge> 2 \<longrightarrow> j \<in> set (tl (sortByPage gs c)) \<longrightarrow>
            finalStatus (gs ! j) = UNIQUE \<longrightarrow>
            foldl markCluster gs cs ! j = upgraded (hd (sortByPage gs c)) (gs ! j))
    \<and> (\<forall>j. (\<forall>c\<in>set cs. length c \<ge> 2 \<longrightarrow> j \<notin> set (tl (sortByPage gs c))) \<longrightarrow>
            foldl markCluster gs cs ! j = gs ! j)
    \<and> (\<forall>j. finalStatus (gs ! j) \<noteq> UNIQUE \<longrightarrow> foldl markCluster gs cs ! j = gs ! j)"
  using assms
proof (induction cs arbitrary: gs)
  case Nil
  then show ?case by simp
next
  case (Cons c cs)
  let ?g1 = "markCluster gs c"
  have dc: "distinct c" and dcs: "distinct (concat cs)"
    and disj: "\<And>c'. c' \<in> set cs \<Longrightarrow> set c \<inter> set c' = {}"
    using Cons.prems(1) by auto
  have bc: "\<forall>i\<in>set c. i < length gs" using Cons.prems(2) by simp
  note m = markCluster_nth [OF dc bc]
  have l1: "length ?g1 = length gs" using m by simp
  have n1: "?g1 ! j = (if length c \<ge> 2 \<and> j \<in> set (tl (sortByPage gs c)) \<and> finalStatus (gs ! j) = UNIQUE
                  then upgraded (hd (sortByPage gs c)) (gs ! j) else gs ! j)" for j
    using m by simp
  have sp: "sortByPage ?g1 c' = sortByPage gs c'" for c'
    by (rule markCluster_page [OF dc bc])
  have b1: "\<forall>c'\<in>set cs. \<forall>i\<in>set c'. i < length ?g1" using Cons.prems(2) l1 by simp
  note ih = Cons.IH [OF dcs b1, unfolded sp]
  have len: "length (foldl markCluster gs (c # cs)) = length gs"
    using ih l1 by simp
  have i: "foldl markCluster gs (c # cs) ! j = upgraded (hd (sortByPage gs c')) (gs ! j)"
    if "c' \<in> set (c # cs)" "length c' \<ge> 2" "j \<in> set (tl (sortByPage gs c'))"
      "finalStatus (gs ! j) = UNIQUE" for c' j
  proof (cases "c' \<in> set cs")
    case True
    have "j \<in> set c'" using that(3) by (rule tl_sort_subset)
    with disj [OF True] have "j \<notin> set c" by auto
    then have "j \<notin> set (tl (sortByPage gs c))" using tl_sort_subset by blast
    then have "?g1 ! j = gs ! j" by (simp add: n1)
    with ih True that show ?thesis by simp
  next
    case False
    with that(1) have e: "c' = c" by simp
    have jc: "j \<in> set c" using that(3) e tl_sort_subset by blast
    have "\<forall>c''\<in>set cs. 2 \<le> length c'' \<longrightarrow> j \<notin> set (tl (sortByPage gs c''))"
      using disj jc tl_sort_subset by blast
    with ih have "foldl markCluster ?g1 cs ! j = ?g1 ! j" by blast
    with that e show ?thesis by (simp add: n1)
  qed
  have ii: "foldl markCluster gs (c # cs) ! j = gs ! j"
    if "\<forall>c'\<in>set (c # cs). length c' \<ge> 2 \<longrightarrow> j \<notin> set (tl (sortByPage gs c'))" for j
  proof -
    have "?g1 ! j = gs ! j" using that by (auto simp: n1)
    moreover have "foldl markCluster ?g1 cs ! j = ?g1 ! j" using ih that by simp
    ultimately show ?thesis by simp
  qed
  have iii: "foldl markCluster gs (c # cs) ! j = gs ! j" if "finalStatus (gs ! j) \<noteq> UNIQUE" for j
  proof -
    have a: "?g1 ! j = gs ! j" using that by (simp add: n1)
    with that have "finalStatus (?g1 ! j) \<noteq> UNIQUE" by simp
    with ih have "foldl markCluster ?g1 cs ! j = ?g1 ! j" by blast
    with a show ?thesis by simp
  qed
  from len i ii iii show ?case by blast
qed


lemma insort_key_cong_set:
  "f x = g x \<Longrightarrow> \<forall>y\<in>set ys. f y = g y \<Longrightarrow> insort_key f x ys = insort_key g x ys"
  by (induction ys) auto

lemma sort_key_cong_set: "\<forall>x\<in>set xs. f x = g x \<Longrightarrow> sort_key f xs = sort_key g xs"
proof (induction xs)
  case Nil
  then show ?case by simp
next
  case (Cons x xs)
  then have "sort_key f xs = sort_key g xs" by simp
  moreover have "insort_key f x (sort_key g xs) = insort_key g x (sort_key g xs)"
    using Cons.prems by (intro insort_key_cong_set) auto
  ultimately show ?case by simp
qed

lemma annotate_nth:
  "length (annotate labels gs) = length gs"
  "i < length gs \<Longrightarrow> pageNumber (annotate labels gs ! i) = pageNumber (gs ! i)"
  "i < length gs \<Longrightarrow> finalStatus (annotate labels gs ! i) = finalStatus (gs ! i)"
  "i < length gs \<Longrightarrow> globalMatchId (annotate labels gs ! i) = globalMatchId (gs ! i)"
  "i < length gs \<Longrightarrow> clusteredWith (annotate labels gs ! i) = clusteredWith (gs ! i)"
  by (simp_all add: annotate_def)

lemma sortByPage_annotate:
  "\<forall>i\<in>set c. i < length gs \<Longrightarrow> sortByPage (annotate labels gs) c = sortByPage gs c"
  unfolding sortByPage_def by (rule sort_key_cong_set) (simp add: annotate_nth)

lemma pushCluster_present:
  assumes "k \<in> fst ` set cl"
  shows "map fst (pushCluster cl k i) = map fst cl"
    and "set (pushCluster cl k i) = (\<lambda>(k', c). if k' = k then (k', c @ [i]) else (k', c)) ` set cl"
  using assms by (auto simp: pushCluster_def)

lemma pushCluster_absent:
  assumes "k \<notin> fst ` set cl"
  shows "set (pushCluster cl k i) = insert (k, [i]) (set cl)"
    and "distinct (map fst cl) \<Longrightarrow> distinct (map fst (pushCluster cl k i))"
proof -
  show s: "set (pushCluster cl k i) = insert (k, [i]) (set cl)"
    using assms by (simp add: pushCluster_def set_insort_key)
  assume d: "distinct (map fst cl)"
  then have "distinct cl" "inj_on fst (set cl)" by (simp_all add: distinct_map)
  moreover have "(k, [i]) \<notin> set cl" using assms by force
  ultimately have "distinct (insort_key fst (k, [i]) cl)"
    and "inj_on fst (set (insort_key fst (k, [i]) cl))"
    using assms by (auto simp: distinct_insort set_insort_key)
  then show "distinct (map fst (pushCluster cl k i))"
    using assms by (simp add: pushCluster_def distinct_map)
qed

lemma groupLabels_invariant:
  "distinct (map fst (groupLabels labels m))
   \<and> (\<forall>(k, c)\<in>set (groupLabels labels m). c = filter (\<lambda>i. labels ! i = k) [0..<m])
   \<and> fst ` set (groupLabels labels m) = {labels ! i |i. i < m \<and> labels ! i \<noteq> 0}"
proof (induction m)
  case 0
  then show ?case by (simp add: groupLabels_def)
next
  case (Suc m)
  let ?G = "groupLabels labels m" and ?k = "labels ! m"
  have step: "groupLabels labels (Suc m) = (if ?k = 0 then ?G else pushCluster ?G ?k m)"
    by (simp add: groupLabels_def)
  from Suc have d: "distinct (map fst ?G)"
    and c: "\<And>k c. (k, c) \<in> set ?G \<Longrightarrow> c = filter (\<lambda>i. labels ! i = k) [0..<m]"
    and ks: "fst ` set ?G = {labels ! i |i. i < m \<and> labels ! i \<noteq> 0}"
    by auto
  have nz: "k \<noteq> 0" if "(k, c) \<in> set ?G" for k c
  proof -
    from that have "k \<in> fst ` set ?G" by force
    with ks show ?thesis by auto
  qed
  have keys: "{labels ! i |i. i < Suc m \<and> labels ! i \<noteq> 0}
                = (if ?k = 0 then {} else {?k}) \<union> {labels ! i |i. i < m \<and> labels ! i \<noteq> 0}"
    by (auto simp: less_Suc_eq)
  show ?case
  proof (cases "?k = 0")
    case True
    have "c = filter (\<lambda>i. labels ! i = k) [0..<Suc m]" if "(k, c) \<in> set ?G" for k c
      using c [OF that] nz [OF that] True by simp
    with d ks keys True show ?thesis by (auto simp: step)
  next
    case knz: False
    show ?thesis
    proof (cases "?k \<in> fst ` set ?G")
      case True
      note p = pushCluster_present [OF True, of m]
      have "c = filter (\<lambda>i. labels ! i = k) [0..<Suc m]"
        if "(k, c) \<in> set (pushCluster ?G ?k m)" for k c
      proof -
        from that p(2) obtain k0 c0 where o: "(k0, c0) \<in> set ?G"
          and e: "(k, c) = (if k0 = ?k then (k0, c0 @ [m]) else (k0, c0))" by auto
        from c [OF o] e show ?thesis by (auto split: if_splits)
      qed
      moreover have "fst ` set (pushCluster ?G ?k m) = fst ` set ?G"
        using p(1) by (metis set_map)
      ultimately show ?thesis
        using d ks keys knz True p(1) by (auto simp: step)
    next
      case False
      note p = pushCluster_absent [OF False, of m]
      have none: "filter (\<lambda>i. labels ! i = ?k) [0..<m] = []"
        using False ks knz by (auto simp: filter_empty_conv)
      have "c = filter (\<lambda>i. labels ! i = k) [0..<Suc m]"
        if "(k, c) \<in> set (pushCluster ?G ?k m)" for k c
      proof (cases "(k, c) = (?k, [m])")
        case True
        with none show ?thesis by simp
      next
        case ne: False
        with that p(1) have o: "(k, c) \<in> set ?G" by auto
        then have "k \<noteq> ?k" using False by force
        with c [OF o] show ?thesis by simp
      qed
      moreover have "fst ` set (pushCluster ?G ?k m) = insert ?k (fst ` set ?G)"
        using p(1) by simp
      ultimately show ?thesis
        using p(2) [OF d] ks keys knz by (auto simp: step)
    qed
  qed
qed

lemma distinct_concat_groups:
  "distinct (map fst cl) \<Longrightarrow> (\<forall>(k, c)\<in>set cl. distinct c \<and> (\<forall>i\<in>set c. f i = k)) \<Longrightarrow>
   distinct (concat (map snd cl))"
proof (induction cl)
  case Nil
  then show ?case by simp
next
  case (Cons a cl)
  then show ?case by (cases a) force
qed

lemma distinct_concat_filter: "distinct (concat xss) \<Longrightarrow> distinct (concat (filter P xss))"
  by (induction xss) auto

lemma groupLabels_clusters:
  "distinct (concat (filter P (map snd (groupLabels labels n))))"
  "c \<in> set (map snd (groupLabels labels n)) \<Longrightarrow> i \<in> set c \<Longrightarrow> i < n"
proof -
  note inv = groupLabels_invariant [of labels n]
  have "\<forall>(k, c)\<in>set (groupLabels labels n). distinct c \<and> (\<forall>i\<in>set c. labels ! i = k)"
    using inv by auto
  with inv have "distinct (concat (map snd (groupLabels labels n)))"
    by (intro distinct_concat_groups [where f = "\<lambda>i. labels ! i"]) auto
  then show "distinct (concat (filter P (map snd (groupLabels labels n))))"
    by (rule distinct_concat_filter)
  show "i < n" if "c \<in> set (map snd (groupLabels labels n))" "i \<in> set c"
    using that inv by auto
qed


lemma matrixRow_total:
  assumes "\<forall>g\<in>set gs. length (embedding g) = d" "i < length gs"
  shows "\<exists>row. matrixRow gs m i = Inr row"
  unfolding matrixRow_def
proof (rule collect_total)
  fix x
  assume "x \<in> set (map (\<lambda>j. if i = j then Inr 1.0
                        else if j < i then Inr (m ! j ! i)
                        else cosineSimilarity (embedding (gs ! i)) (embedding (gs ! j)))
                  [0..<length gs])"
  then obtain j where j: "j < length gs"
    and x: "x = (if i = j then Inr 1.0 else if j < i then Inr (m ! j ! i)
                 else cosineSimilarity (embedding (gs ! i)) (embedding (gs ! j)))"
    by auto
  have "length (embedding (gs ! i)) = length (embedding (gs ! j))"
    using assms j by simp
  from cosineSimilarity_eq [OF this] x show "\<exists>v. x = Inr v" by auto
qed

lemma matrixRows_total:
  assumes "\<forall>g\<in>set gs. length (embedding g) = d" "\<forall>i\<in>set is. i < length gs"
  shows "\<exists>m. matrixRows gs m0 is = Inr m"
  using assms(2)
proof (induction "is" arbitrary: m0)
  case Nil
  then show ?case by simp
next
  case (Cons i "is")
  then obtain row where "matrixRow gs m0 i = Inr row"
    using matrixRow_total [OF assms(1), of i m0] by auto
  with Cons show ?case by simp
qed

lemma dbscanCluster_total:
  assumes "\<forall>g\<in>set gs. length (embedding g) = d"
  shows "\<exists>labels noise. dbscanCluster gs eps minPts =
           Inr (filter (\<lambda>c. length c \<ge> minPts) (map snd (groupLabels labels (length gs))), noise, labels)"
proof -
  obtain m where "computeSimilarityMatrix gs = Inr m"
    using matrixRows_total [OF assms, of "[0..<length gs]" "[]"]
    by (auto simp: computeSimilarityMatrix_def)
  then show ?thesis by (simp add: dbscanCluster_def Let_def)
qed

lemma disjoint_members:
  "distinct (concat cs) \<Longrightarrow> c \<in> set cs \<Longrightarrow> c' \<in> set cs \<Longrightarrow> c \<noteq> c' \<Longrightarrow> set c \<inter> set c' = {}"
  by (simp add: distinct_concat_iff)

text \<open>
  C4 (as amended).  When all embeddings of the batch have one dimension, the DBSCAN pass returns.
  Every cluster it walks through has at least two members and is sorted by page number (stably),
  its first member being the primary; every later member that was still UNIQUE becomes
  NEAR_DUPLICATE with \<open>clusteredWith\<close> set to the batch index of that primary; the primary keeps
  its status; no grievance that was not UNIQUE, in particular no DUPLICATE, changes its status.
  The pass never writes \<open>globalMatchId\<close>, so the \<open>matched_grievance_id\<close> that
  \<open>saveGrievancesToDB\<close> persists is the one of the pairwise pass.
\<close>

theorem dbscan_upgrade:
  assumes dims: "\<forall>g\<in>set gs. length (embedding g) = d"
    and c: "c \<in> set (batchClusters gs th)"
  shows "\<exists>gs'. applyDBSCANClustering gs th = Inr gs' \<and> length gs' = length gs
     \<and> 2 \<le> length c
     \<and> set (sortByPage gs c) = set c
     \<and> sorted (map (\<lambda>a. pageNumber (gs ! a)) (sortByPage gs c))
     \<and> (\<forall>i\<in>set (tl (sortByPage gs c)). finalStatus (gs ! i) = UNIQUE \<longrightarrow>
            finalStatus (gs' ! i) = NEAR_DUPLICATE
            \<and> clusteredWith (gs' ! i) = Some (hd (sortByPage gs c)))
     \<and> finalStatus (gs' ! hd (sortByPage gs c)) = finalStatus (gs ! hd (sortByPage gs c))
     \<and> (\<forall>i<length gs. finalStatus (gs ! i) \<noteq> UNIQUE \<longrightarrow> finalStatus (gs' ! i) = finalStatus (gs ! i))
     \<and> (\<forall>i<length gs. globalMatchId (gs' ! i) = globalMatchId (gs ! i))
     \<and> map matched_grievance_id (saveGrievancesToDB gs' firstId)
         = map matched_grievance_id (saveGrievancesToDB gs firstId)"
proof -
  let ?eps = "1 - js_or (Some (th near_duplicate)) 0.30"
  from c have big: "\<not> length gs < 2" by (auto simp: batchClusters_def split: if_splits)
  obtain labels noise where db: "dbscanCluster gs ?eps 2 =
      Inr (filter (\<lambda>c. length c \<ge> 2) (map snd (groupLabels labels (length gs))), noise, labels)"
    using dbscanCluster_total [OF dims] by blast
  let ?cs = "filter (\<lambda>c. length c \<ge> 2) (map snd (groupLabels labels (length gs)))"
  let ?a = "annotate labels gs"
  let ?r = "foldl markCluster ?a ?cs"
  have bc: "batchClusters gs th = ?cs" using big db by (simp add: batchClusters_def)
  have res: "applyDBSCANClustering gs th = Inr ?r"
    using big db by (simp add: applyDBSCANClustering_def Let_def)
  have dist: "distinct (concat ?cs)" by (rule groupLabels_clusters(1))
  have bound: "i < length gs" if "c' \<in> set ?cs" "i \<in> set c'" for c' i
    using that groupLabels_clusters(2) [of c' labels "length gs" i] by simp
  have bnd: "\<forall>c'\<in>set ?cs. \<forall>i\<in>set c'. i < length ?a"
    using bound by (simp add: annotate_nth)
  have sp: "sortByPage ?a c' = sortByPage gs c'" if "c' \<in> set ?cs" for c'
    using that bound by (intro sortByPage_annotate) blast
  note f = markClusters_nth [OF dist bnd]
  have cin: "c \<in> set ?cs" using c bc by simp
  have len2: "2 \<le> length c" using cin by simp
  let ?s = "sortByPage gs c"
  have dc: "distinct c" using dist cin by (auto simp: distinct_concat_iff)
  have lr: "length ?r = length gs" using f by (simp add: annotate_nth)
  have up: "finalStatus (?r ! i) = NEAR_DUPLICATE \<and> clusteredWith (?r ! i) = Some (hd ?s)"
    if "i \<in> set (tl ?s)" "finalStatus (gs ! i) = UNIQUE" for i
  proof -
    have il: "i < length gs" using that(1) tl_sort_subset bound [OF cin] by blast
    have "?r ! i = upgraded (hd (sortByPage ?a c)) (?a ! i)"
      using f cin len2 that il by (simp add: sp annotate_nth)
    then show ?thesis by (simp add: sp [OF cin])
  qed
  have same: "?r ! j = ?a ! j"
    if "finalStatus (gs ! j) \<noteq> UNIQUE \<or> (\<forall>c'\<in>set ?cs. j \<notin> set (tl (sortByPage gs c')))"
      "j < length gs" for j
    using f that by (auto simp: sp annotate_nth)
  have prim: "finalStatus (?r ! hd ?s) = finalStatus (gs ! hd ?s)"
  proof -
    have ne: "?s \<noteq> []" using len2 sortByPage_props(3) [of gs c] by auto
    then have hs: "hd ?s \<in> set c" using sortByPage_props(1) [of gs c] by (metis hd_in_set)
    have ds: "distinct ?s" using dc by (simp add: sortByPage_props)
    have notl: "hd ?s \<notin> set (tl ?s)" using ds ne by (cases ?s) auto
    have "hd ?s \<notin> set (tl (sortByPage gs c'))" if "c' \<in> set ?cs" for c'
    proof (cases "c' = c")
      case True
      with notl show ?thesis by simp
    next
      case False
      from disjoint_members [OF dist cin that] False hs have "hd ?s \<notin> set c'" by auto
      then show ?thesis using tl_sort_subset by blast
    qed
    with same [of "hd ?s"] bound [OF cin hs] show ?thesis by (simp add: annotate_nth)
  qed
  have keep: "finalStatus (?r ! i) = finalStatus (gs ! i)"
    if "i < length gs" "finalStatus (gs ! i) \<noteq> UNIQUE" for i
    using same [of i] that by (simp add: annotate_nth)
  have gm: "globalMatchId (?r ! i) = globalMatchId (gs ! i)" if il: "i < length gs" for i
  proof (cases "finalStatus (gs ! i) \<noteq> UNIQUE \<or> (\<forall>c'\<in>set ?cs. i \<notin> set (tl (sortByPage gs c')))")
    case True
    from same [OF True il] il show ?thesis by (simp add: annotate_nth)
  next
    case False
    then obtain c' where c': "c' \<in> set ?cs" "i \<in> set (tl (sortByPage gs c'))"
      and u: "finalStatus (gs ! i) = UNIQUE" by auto
    have "?r ! i = upgraded (hd (sortByPage ?a c')) (?a ! i)"
      using f c' u il by (simp add: sp annotate_nth)
    then show ?thesis using il by (simp add: annotate_nth)
  qed
  have sv: "map matched_grievance_id (saveGrievancesToDB ?r firstId)
              = map matched_grievance_id (saveGrievancesToDB gs firstId)"
    using gm lr by (auto simp: saveGrievancesToDB_def Let_def)
  show ?thesis
    apply (rule exI [of _ ?r])
    using res lr len2 sortByPage_props(1) [of gs c] sortByPage_props(4) [of gs c] up prim keep gm sv
    apply (intro conjI)
    apply blast+
    done
qed

text \<open>The pass on the batch of \<open>first_complaint\<close> and \<open>near_copy\<close>, step by step.\<close>

lemma two_upt: "[0..<2] = [0, Suc 0]" "[0..<Suc (Suc 0)] = [0, Suc 0]"
  by (simp_all add: upt_rec numeral_2_eq_2)

lemma ex_matrix: "computeSimilarityMatrix [first_complaint, near_copy] = Inr [[1, 1], [1, 1]]"
  by (simp add: computeSimilarityMatrix_def matrixRow_def cosineSimilarity_def two_upt
        first_complaint_def near_copy_def)


lemma ex_eps: "1 - js_or (Some (try_defaults near_duplicate)) 0.30 = (2/5 :: real)"
  by (simp add: js_or_def)

lemma ex_region: "regionQuery [[1, 1], [1, 1]] 0 (2/5) (Suc (Suc 0)) = [0, Suc 0]"
  "regionQuery [[1, 1], [1, 1]] (Suc 0) (2/5) (Suc (Suc 0)) = [0, Suc 0]"
  by (simp_all add: regionQuery_def two_upt)

lemma ex_expand:
  "expandLoop [[1, 1], [1, 1]] [1, - 1] [0, Suc 0] (Suc 0) (2/5) 2 (Suc (Suc 0)) = [1, 1]"
  by (simp add: ex_region Let_def)

lemma ex_labels:
  "dbscanLoop [[1, 1], [1, 1]] [- 1, - 1] 1 [0, Suc 0] (2/5) 2 (Suc (Suc 0)) = [1, 1]"
proof -
  have "dbscanLoop [[1, 1], [1, 1]] [- 1, - 1] (Suc 0) [0, Suc 0] (2/5) 2 (Suc (Suc 0))
          = dbscanLoop [[1, 1], [1, 1]] [1, 1] (Suc 0 + 1) [Suc 0] (2/5) 2 (Suc (Suc 0))"
    by (simp add: ex_region expandCluster_def ex_expand Let_def del: expandLoop.simps)
  also have "\<dots> = [1, 1]" by simp
  finally show ?thesis by simp
qed

lemma ex_groups: "groupLabels [1, 1] (Suc (Suc 0)) = [(1, [0, Suc 0])]"
  by (simp add: groupLabels_def pushCluster_def two_upt)

lemma ex_dbscan:
  "dbscanCluster [first_complaint, near_copy] (2/5) 2 = Inr ([[0, Suc 0]], [], [1, 1])"
proof -
  have n: "length [first_complaint, near_copy] = Suc (Suc 0)" by simp
  have r: "replicate (Suc (Suc 0)) (- 1 :: int) = [- 1, - 1]" by simp
  show ?thesis
    by (simp only: dbscanCluster_def n Let_def ex_matrix sum.case r two_upt ex_labels ex_groups)
       simp
qed

lemma ex_clusters: "batchClusters [first_complaint, near_copy] try_defaults = [[0, Suc 0]]"
  by (simp only: batchClusters_def ex_eps ex_dbscan) simp

lemma ex_sorted: "sortByPage [first_complaint, near_copy] [0, Suc 0] = [0, Suc 0]"
  by (simp add: sortByPage_def first_complaint_def near_copy_def)

lemma ex_apply:
  "applyDBSCANClustering [first_complaint, near_copy] try_defaults =
     Inr [first_complaint\<lparr>clusterId := Some 1, clusterSize := Some 2\<rparr>,
          near_copy\<lparr>clusterId := Some 1, clusterSize := Some 2, finalStatus := NEAR_DUPLICATE,
                    clusteredWith := Some 0, clusterBasedMatch := True\<rparr>]"
  apply (simp only: applyDBSCANClustering_def ex_eps Let_def ex_dbscan)
  apply (simp add: annotate_def markCluster_def sortByPage_def upgradeMember_def two_upt
           first_complaint_def near_copy_def)
  done

theorem dbscan_upgrade_witness:
  "length (embedding first_complaint) = 2 \<and> length (embedding near_copy) = 2
   \<and> [0, Suc 0] \<in> set (batchClusters [first_complaint, near_copy] try_defaults)
   \<and> (\<exists>gs'. applyDBSCANClustering [first_complaint, near_copy] try_defaults = Inr gs'
          \<and> finalStatus (gs' ! Suc 0) = NEAR_DUPLICATE \<and> clusteredWith (gs' ! Suc 0) = Some 0
          \<and> finalStatus (gs' ! 0) = UNIQUE)"
proof -
  have d: "\<forall>g\<in>set [first_complaint, near_copy]. length (embedding g) = 2"
    by (simp add: first_complaint_def near_copy_def)
  have c: "[0, Suc 0] \<in> set (batchClusters [first_complaint, near_copy] try_defaults)"
    by (simp add: ex_clusters)
  from dbscan_upgrade [OF d c, of 6] obtain gs' where
    r: "applyDBSCANClustering [first_complaint, near_copy] try_defaults = Inr gs'"
    and u: "\<forall>i\<in>set (tl (sortByPage [first_complaint, near_copy] [0, Suc 0])).
              finalStatus ([first_complaint, near_copy] ! i) = UNIQUE \<longrightarrow>
              finalStatus (gs' ! i) = NEAR_DUPLICATE
              \<and> clusteredWith (gs' ! i) = Some (hd (sortByPage [first_complaint, near_copy] [0, Suc 0]))"
    and p: "finalStatus (gs' ! hd (sortByPage [first_complaint, near_copy] [0, Suc 0]))
              = finalStatus ([first_complaint, near_copy] ! hd (sortByPage [first_complaint, near_copy] [0, Suc 0]))"
    by blast
  have "finalStatus (gs' ! Suc 0) = NEAR_DUPLICATE \<and> clusteredWith (gs' ! Suc 0) = Some 0"
    using u unfolding ex_sorted by (simp add: near_copy_def)
  moreover have "finalStatus (gs' ! 0) = UNIQUE"
    using p unfolding ex_sorted by (simp add: first_complaint_def)
  moreover have "length (embedding first_complaint) = 2 \<and> length (embedding near_copy) = 2"
    by (simp add: first_complaint_def near_copy_def)
  ultimately show ?thesis using c r by blast
qed

text \<open>
  C4 as stated fails on that batch: \<open>near_copy\<close> is upgraded and linked in memory to index 0,
  but the row saved for it (id 7) has no \<open>matched_grievance_id\<close>, whereas the primary was saved
  with id 6.
\<close>

theorem dbscan_persisted_link_counterexample:
  "applyDBSCANClustering [first_complaint, near_copy] try_defaults =
     Inr [first_complaint\<lparr>clusterId := Some 1, clusterSize := Some 2\<rparr>,
          near_copy\<lparr>clusterId := Some 1, clusterSize := Some 2, finalStatus := NEAR_DUPLICATE,
                    clusteredWith := Some 0, clusterBasedMatch := True\<rparr>]
   \<and> saveGrievancesToDB
         [first_complaint\<lparr>clusterId := Some 1, clusterSize := Some 2\<rparr>,
          near_copy\<lparr>clusterId := Some 1, clusterSize := Some 2, finalStatus := NEAR_DUPLICATE,
                    clusteredWith := Some 0, clusterBasedMatch := True\<rparr>] 6 =
       [\<lparr>id_num = 6, page = 1, status = UNIQUE, score = 0, matchedId = None,
          matched_grievance_id = None\<rparr>,
        \<lparr>id_num = 7, page = 2, status = NEAR_DUPLICATE, score = 0.55, matchedId = None,
          matched_grievance_id = None\<rparr>]"
proof -
  have "saveGrievancesToDB
         [first_complaint\<lparr>clusterId := Some 1, clusterSize := Some 2\<rparr>,
          near_copy\<lparr>clusterId := Some 1, clusterSize := Some 2, finalStatus := NEAR_DUPLICATE,
                    clusteredWith := Some 0, clusterBasedMatch := True\<rparr>] 6 =
       [\<lparr>id_num = 6, page = 1, status = UNIQUE, score = 0, matchedId = None,
          matched_grievance_id = None\<rparr>,
        \<lparr>id_num = 7, page = 2, status = NEAR_DUPLICATE, score = 0.55, matchedId = None,
          matched_grievance_id = None\<rparr>]"
    by (simp add: saveGrievancesToDB_def two_upt first_complaint_def near_copy_def
          js_or_def falsy_id_def Let_def)
  with ex_apply show ?thesis by (rule conjI)
qed

section \<open>Text normalizer\<close>

lemma js_split_ne [simp]: "js_split sep s \<noteq> []"
  by (induction s) (auto split: list.splits)

lemma join_split: "js_join [sep] (js_split sep s) = s"
proof (induction s)
  case Nil
  then show ?case by simp
next
  case (Cons c cs)
  obtain w ws where e: "js_split sep cs = w # ws"
    using js_split_ne [of sep cs] by (cases "js_split sep cs") auto
  with Cons show ?case by (cases ws) auto
qed

lemma split_chars: "w \<in> set (js_split sep s) \<Longrightarrow> set w \<subseteq> set s"
proof (induction s arbitrary: w)
  case Nil
  then show ?case by simp
next
  case (Cons c cs)
  obtain v vs where e: "js_split sep cs = v # vs"
    using js_split_ne [of sep cs] by (cases "js_split sep cs") auto
  with Cons show ?case by (fastforce split: if_splits)
qed

lemma chars_in_tokens:
  "c \<in> set s \<Longrightarrow> c \<noteq> sep \<Longrightarrow> \<exists>w\<in>set (js_split sep s). c \<in> set w"
proof (induction s)
  case Nil
  then show ?case by simp
next
  case (Cons a cs)
  obtain v vs where e: "js_split sep cs = v # vs"
    using js_split_ne [of sep cs] by (cases "js_split sep cs") auto
  with Cons show ?case by (fastforce split: if_splits)
qed

lemma try_down_None: "(\<And>n. f n = None) \<Longrightarrow> try_down f lo k = None"
  by (induction k) auto

lemma try_down_short: "k < lo \<Longrightarrow> try_down f lo k = None"
  by (cases k) auto

lemma replace_all_id:
  assumes "Q s" and "\<And>c cs. Q (c # cs) \<Longrightarrow> Q cs" and "\<And>prev t. Q t \<Longrightarrow> m prev t = None"
  shows "replace_all m prev 0 s = s"
  using assms(1)
proof (induction s arbitrary: prev)
  case Nil
  then show ?case by simp
next
  case (Cons c cs)
  from assms(3) [OF Cons.prems] assms(2) [OF Cons.prems] Cons.IH show ?case by simp
qed


lemma try_down_const_None [simp]: "try_down (\<lambda>n. None) lo k = None"
  by (rule try_down_None) simp

lemma of_char_lower_char:
  "(of_char (lower_char x) :: nat)
     = (if 65 \<le> (of_char x :: nat) \<and> (of_char x :: nat) \<le> 90 then of_char x + 32 else of_char x)"
  by (simp add: lower_char_def)

lemma lower_char_punct:
  assumes "lower_char x = c0" "(of_char c0 :: nat) < 97"
    "\<not> (65 \<le> (of_char c0 :: nat) \<and> (of_char c0 :: nat) \<le> 90)"
  shows "x = c0"
proof -
  from assms(1) have "(of_char (lower_char x) :: nat) = of_char c0" by simp
  with assms(2,3) have "\<not> (65 \<le> (of_char x :: nat) \<and> (of_char x :: nat) \<le> 90)"
    by (auto simp: of_char_lower_char split: if_splits)
  with assms(1) show ?thesis by (simp add: lower_char_def)
qed

lemma lit_needs_head:
  assumes "lit_matches ci (c0 # l) u" "(of_char c0 :: nat) < 97"
    "\<not> (65 \<le> (of_char c0 :: nat) \<and> (of_char c0 :: nat) \<le> 90)"
  shows "c0 \<in> set u"
proof (cases u)
  case Nil
  with assms(1) show ?thesis by (simp add: lit_matches_def)
next
  case (Cons x xs)
  have "lower_char c0 = c0" using assms(3) by (auto simp: lower_char_def)
  with assms(1) Cons have "x = c0 \<or> lower_char x = c0"
    by (auto simp: lit_matches_def split: if_splits)
  then have "x = c0" using lower_char_punct [OF _ assms(2,3)] by auto
  with Cons show ?thesis by simp
qed

lemma no_colon: "CHR '':'' \<notin> set t \<Longrightarrow> \<not> lit_matches ci ''://'' (drop n t)"
  using lit_needs_head [of ci "CHR '':''" "''//''" "drop n t"] in_set_dropD [of "CHR '':''" n t]
  by auto

lemma no_at: "CHR ''@'' \<notin> set t \<Longrightarrow> \<not> lit_matches ci ''@'' (drop n t)"
  using lit_needs_head [of ci "CHR ''@''" "[]" "drop n t"] in_set_dropD [of "CHR ''@''" n t]
  by auto

lemma no_plus: "CHR ''+'' \<notin> set t \<Longrightarrow> \<not> lit_matches ci ''+'' t"
  using lit_needs_head [of ci "CHR ''+''" "[]" t] by auto

lemma no_paren: "CHR ''('' \<notin> set t \<Longrightarrow> \<not> lit_matches ci ''('' t"
  using lit_needs_head [of ci "CHR ''(''" "[]" t] by auto

lemma url_none: "CHR '':'' \<notin> set t \<Longrightarrow> match_rx True urlPattern prev t = None"
  by (simp add: urlPattern_def Let_def no_colon)

lemma email_none: "CHR ''@'' \<notin> set t \<Longrightarrow> match_rx False emailPattern prev t = None"
  by (simp add: emailPattern_def Let_def no_at)

lemma phone1_none:
  "CHR ''+'' \<notin> set t \<Longrightarrow> length (takeWhile is_digit t) < 10 \<Longrightarrow>
   match_rx False phonePattern1 prev t = None"
  by (simp add: phonePattern1_def Let_def no_plus try_down_short)

lemma phone2_none: "CHR ''('' \<notin> set t \<Longrightarrow> match_rx False phonePattern2 prev t = None"
  by (simp add: phonePattern2_def Let_def no_paren)

lemma not_clean:
  "\<not> clean_char CHR '':''" "\<not> clean_char CHR ''@''" "\<not> clean_char CHR ''+''" "\<not> clean_char CHR ''(''"
  by (simp_all add: clean_char_def is_lower_def is_digit_def)

lemma clean_lower: "clean_char c \<Longrightarrow> lower_char c = c"
  unfolding clean_char_def is_lower_def is_digit_def lower_char_def
  by (elim disjE) simp_all

lemma clean_special:
  "clean_char c \<Longrightarrow> (if is_lower c \<or> is_digit c \<or> is_whitespace c then c else CHR '' '') = c"
  unfolding clean_char_def by (elim disjE) (simp_all add: is_whitespace_def)

lemma no_digit_run_tl: "no_digit_run (c # cs) \<Longrightarrow> no_digit_run cs"
  by simp

lemma sweeps_id:
  assumes cl: "\<forall>c\<in>set y. clean_char c" and nd: "no_digit_run y"
  shows "removeUrls y = y" "removeEmails y = y" "removePhoneNumbers y = y"
proof -
  have a: "CHR '':'' \<notin> set y" "CHR ''@'' \<notin> set y" "CHR ''+'' \<notin> set y" "CHR ''('' \<notin> set y"
    using cl not_clean by blast+
  show "removeUrls y = y"
    unfolding removeUrls_def
    by (rule replace_all_id [where Q = "\<lambda>t. CHR '':'' \<notin> set t"]) (use a in \<open>auto simp: url_none\<close>)
  show "removeEmails y = y"
    unfolding removeEmails_def
    by (rule replace_all_id [where Q = "\<lambda>t. CHR ''@'' \<notin> set t"]) (use a in \<open>auto simp: email_none\<close>)
  show "removePhoneNumbers y = y"
    unfolding removePhoneNumbers_def
  proof (rule replace_all_id [where Q = "\<lambda>t. CHR ''+'' \<notin> set t \<and> CHR ''('' \<notin> set t \<and> no_digit_run t"])
    show "CHR ''+'' \<notin> set y \<and> CHR ''('' \<notin> set y \<and> no_digit_run y" using a nd by simp
  next
    fix c cs
    assume "CHR ''+'' \<notin> set (c # cs) \<and> CHR ''('' \<notin> set (c # cs) \<and> no_digit_run (c # cs)"
    then show "CHR ''+'' \<notin> set cs \<and> CHR ''('' \<notin> set cs \<and> no_digit_run cs" by simp
  next
    fix prev t
    assume q: "CHR ''+'' \<notin> set t \<and> CHR ''('' \<notin> set t \<and> no_digit_run t"
    then have "length (takeWhile is_digit t) < 10" by (cases t) simp_all
    with q show "(case match_rx False phonePattern1 prev t of
                    Some n \<Rightarrow> Some n | None \<Rightarrow> match_rx False phonePattern2 prev t) = None"
      by (simp add: phone1_none phone2_none)
  qed
qed

lemma lower_special_id:
  assumes "\<forall>c\<in>set y. clean_char c"
  shows "toLowerCase y = y" "removeSpecialChars y = y"
proof -
  show "toLowerCase y = y"
    unfolding toLowerCase_def by (rule map_idI) (use assms clean_lower in blast)
  show "removeSpecialChars y = y"
    unfolding removeSpecialChars_def by (rule map_idI) (use assms clean_special in blast)
qed

lemma collapse_token: "\<forall>c\<in>set w. \<not> is_whitespace c \<Longrightarrow> w \<noteq> [] \<Longrightarrow> collapse b (w @ r) = w @ collapse False r"
proof (induction w arbitrary: b)
  case Nil
  then show ?case by simp
next
  case (Cons c w)
  then show ?case by (cases w) auto
qed

lemma space_ws [simp]: "is_whitespace CHR '' ''"
  by (simp add: is_whitespace_def)

lemma collapse_join: "\<forall>w\<in>set ws. token w \<Longrightarrow> collapse b (js_join '' '' ws) = js_join '' '' ws"
proof (induction "'' ''" ws arbitrary: b rule: js_join.induct)
  case 1
  then show ?case by simp
next
  case (2 w)
  then show ?case using collapse_token [of w b "[]"] by (simp add: token_def)
next
  case (3 w v vs)
  have t: "token v" using 3(2) by simp
  then obtain x xs where v: "v = x # xs" by (cases v) (auto simp: token_def)
  have j: "js_join '' '' (v # vs) = x # (xs @ (case vs of [] \<Rightarrow> [] | _ \<Rightarrow> '' '' @ js_join '' '' vs))"
    using v by (cases vs) auto
  have nx: "\<not> is_whitespace x" using t v by (simp add: token_def)
  have "collapse True (js_join '' '' (v # vs)) = js_join '' '' (v # vs)"
    using 3(1) [of True] 3(2) by simp
  then have c2: "collapse False (CHR '' '' # js_join '' '' (v # vs)) = CHR '' '' # js_join '' '' (v # vs)"
    by simp
  have "collapse b (w @ CHR '' '' # js_join '' '' (v # vs)) = w @ collapse False (CHR '' '' # js_join '' '' (v # vs))"
    using 3(2) by (intro collapse_token) (auto simp: token_def)
  with c2 show ?case by simp
qed

lemma join_hd_last:
  "ws \<noteq> [] \<Longrightarrow> \<forall>w\<in>set ws. token w \<Longrightarrow>
   js_join '' '' ws \<noteq> [] \<and> hd (js_join '' '' ws) = hd (hd ws) \<and> last (js_join '' '' ws) = last (last ws)"
proof (induction "'' ''" ws rule: js_join.induct)
  case 1
  then show ?case by simp
next
  case (2 w)
  then show ?case by (simp add: token_def)
next
  case (3 w v vs)
  then show ?case by (auto simp: token_def)
qed

lemma trim_id: "s = [] \<or> (\<not> is_whitespace (hd s) \<and> \<not> is_whitespace (last s)) \<Longrightarrow> trim s = s"
proof (cases s)
  case Nil
  then show ?thesis by (simp add: trim_def)
next
  case (Cons a as)
  assume "s = [] \<or> (\<not> is_whitespace (hd s) \<and> \<not> is_whitespace (last s))"
  with Cons have h: "\<not> is_whitespace a" "\<not> is_whitespace (last s)" by auto
  have 1: "dropWhile is_whitespace s = s" using Cons h by simp
  have "rev s = last s # rev (butlast s)" using Cons by (metis append_butlast_last_id list.distinct(1) rev.simps(2) rev_rev_ident rev_singleton_conv rev_append)
  then have 2: "dropWhile is_whitespace (rev s) = rev s"
    using h(2) by (simp only: dropWhile.simps if_False)
  show ?thesis by (simp add: trim_def 1 2)
qed

lemma trim_join: "\<forall>w\<in>set ws. token w \<Longrightarrow> trim (js_join '' '' ws) = js_join '' '' ws"
proof (cases ws)
  case Nil
  then show ?thesis by (simp add: trim_def)
next
  case (Cons w vs)
  assume t: "\<forall>w\<in>set ws. token w"
  from join_hd_last [OF _ t] Cons
  have j: "js_join '' '' ws \<noteq> []" "hd (js_join '' '' ws) = hd (hd ws)"
    "last (js_join '' '' ws) = last (last ws)" by auto
  have "token (hd ws)" "token (last ws)" using t Cons by auto
  then have "\<not> is_whitespace (hd (hd ws))" "\<not> is_whitespace (last (last ws))"
    by (auto simp: token_def)
  with j show ?thesis by (intro trim_id) simp
qed

lemma good_token_token: "good_token w \<Longrightarrow> token w"
proof -
  assume g: "good_token w"
  have "\<not> is_whitespace c" if "is_lower c \<or> is_digit c" for c
    using that by (auto simp: is_lower_def is_digit_def is_whitespace_def)
  with g show ?thesis
    by (auto simp: good_token_def token_def list_all_iff)
qed

lemma normal_form_fixed:
  assumes "normal_form y"
  shows "preprocessText y = y"
proof (cases "y = []")
  case True
  then show ?thesis by (simp add: preprocessText_def)
next
  case False
  let ?ws = "js_split CHR '' '' y"
  from assms False have good: "\<forall>w\<in>set ?ws. good_token w" and nd: "no_digit_run y"
    by (auto simp: normal_form_def list_all_iff)
  have tok: "\<forall>w\<in>set ?ws. token w" using good good_token_token by blast
  have j: "js_join '' '' ?ws = y" by (rule join_split)
  have clean: "\<forall>c\<in>set y. clean_char c"
  proof
    fix c assume c: "c \<in> set y"
    show "clean_char c"
    proof (cases "c = CHR '' ''")
      case True
      then show ?thesis by (simp add: clean_char_def)
    next
      case False
      with c obtain w where "w \<in> set ?ws" "c \<in> set w" using chars_in_tokens by blast
      with good show ?thesis by (auto simp: good_token_def list_all_iff clean_char_def)
    qed
  qed
  have 1: "toLowerCase (normalizeUnicode y) = y"
    using lower_special_id(1) [OF clean] by (simp add: normalizeUnicode_def)
  have 2: "removePhoneNumbers (removeEmails (removeUrls y)) = y"
    using sweeps_id [OF clean nd] by simp
  have 3: "removeSpecialChars y = y" by (rule lower_special_id(2) [OF clean])
  have 4: "normalizeWhitespace y = y"
    using collapse_join [OF tok, of False] trim_join [OF tok] by (simp add: normalizeWhitespace_def j)
  have "filter (\<lambda>word. word \<notin> set STOPWORDS \<and> length word > 1) ?ws = ?ws"
    using good by (auto simp: good_token_def filter_id_conv)
  then have 5: "removeStopwords y = y" by (simp add: removeStopwords_def j)
  have "map lemmatizeWord ?ws = ?ws"
    using good by (intro map_idI) (simp add: good_token_def)
  then have 6: "simpleLemmatization y = y" by (simp add: simpleLemmatization_def j)
  have 7: "trim y = y" using trim_join [OF tok] by (simp add: j)
  show ?thesis using False by (simp add: preprocessText_def 1 2 3 4 5 6 7)
qed

text \<open>
  C8 (as amended).  For ASCII text \<open>x\<close>, normalizing twice gives the same as normalizing once
  whenever \<open>preprocessText x\<close> is a normal form; every normal form is a fixed point of the
  pipeline.
\<close>

theorem normalization_idempotent_on_normal_forms:
  assumes "list_all is_ascii x" and "normal_form (preprocessText x)"
  shows "preprocessText (preprocessText x) = preprocessText x"
  using assms(2) by (rule normal_form_fixed)

theorem normalization_idempotent_on_normal_forms_witness:
  "list_all is_ascii ''Water supply broken''
   \<and> normal_form (preprocessText ''Water supply broken'')
   \<and> preprocessText ''Water supply broken'' = ''wat supp broken''
   \<and> preprocessText (preprocessText ''Water supply broken'') = preprocessText ''Water supply broken''"
proof -
  have a: "list_all is_ascii ''Water supply broken''" by code_simp
  have p: "preprocessText ''Water supply broken'' = ''wat supp broken''" by code_simp
  have n: "normal_form (preprocessText ''Water supply broken'')" unfolding p by code_simp
  from normalization_idempotent_on_normal_forms [OF a n] a n p show ?thesis by simp
qed

text \<open>
  C8 as stated fails: the suffix rule \<open>s\<close> fires again on its own output, so \<open>glass\<close> is
  normalized to \<open>glas\<close> and that to \<open>gla\<close>.
\<close>

theorem normalization_not_idempotent:
  "preprocessText ''glass'' = ''glas'' \<and> preprocessText (preprocessText ''glass'') = ''gla''"
proof -
  have a: "preprocessText ''glass'' = ''glas''" by code_simp
  have b: "preprocessText ''glas'' = ''gla''" by code_simp
  from a b show ?thesis by simp
qed

end
